theory Spec2Isabelle
  imports Complex_Main "HOL-Library.Multiset"
begin

section \<open>Errors of the Python runtime\<close>

text \<open>
  The planning code of the repository validates nothing itself; what can go wrong is an
  exception of the Python runtime. Each one the modelled code can raise is a value here,
  and a fallible function returns \<open>py_error + 'a\<close> with \<open>Inl\<close> for the exception.
\<close>

datatype py_error = ZeroDivisionError | OverflowError | IndexError | TypeError

section \<open>Crop geometry: \<open>get_video_crop_params\<close>\<close>

text \<open>
  \<open>get_video_crop_params\<close> (video_grid_generator_v2_advanced.py, lines 63-95) first asks
  the external probe for the video stream of the file; the model starts from that stream:
  its \<open>width\<close> and \<open>height\<close> (Python integers) and its frame rate, which the function
  evaluates and passes through untouched (an opaque value of type \<open>'f\<close> here).
\<close>

record 'f video_stream =
  width :: int
  height :: int
  r_frame_rate :: 'f

record 'f crop_params =
  original_width :: int
  original_height :: int
  square_size :: int
  crop_x :: int
  crop_y :: int
  fps :: 'f

text \<open>
  Python's \<open>//\<close> is floor division, as \<open>div\<close> on \<open>int\<close> is. The four branches are
  kept in the order of the source, the last one being the \<open>else\<close> of the chain.
\<close>

definition get_video_crop_params :: "'f video_stream \<Rightarrow> string \<Rightarrow> 'f crop_params" where
  "get_video_crop_params video_stream crop_mode =
     (let w = width video_stream;
          h = height video_stream;
          sq = min w h;
          (cx, cy) =
            (if crop_mode = ''center'' then ((w - sq) div 2, (h - sq) div 2)
             else if crop_mode = ''top'' then ((w - sq) div 2, 0)
             else if crop_mode = ''bottom'' then ((w - sq) div 2, h - sq)
             else ((w - sq) div 2, (h - sq) div 2))
      in \<lparr>original_width = w, original_height = h, square_size = sq,
          crop_x = cx, crop_y = cy, fps = r_frame_rate video_stream\<rparr>)"


section \<open>Python floats\<close>

text \<open>
  \<open>calculate_optimal_grid\<close> compares aspect ratios as Python floats, which are IEEE-754
  binary64 numbers. A finite float is modelled by the real number it denotes; an operation
  computes the exact result and rounds it to the nearest binary64 number, ties going to
  the even significand. \<open>ilog2 n\<close> is the position of the leading bit of \<open>n\<close>, and
  \<open>binade x\<close> the exponent \<open>e\<close> with \<open>2 powi e \<le> \<bar>x\<bar> < 2 powi (e + 1)\<close>.
\<close>

fun ilog2 :: "nat \<Rightarrow> nat" where
  "ilog2 n = (if n < 2 then 0 else Suc (ilog2 (n div 2)))"

declare ilog2.simps [simp del]

definition pow2 :: "int \<Rightarrow> real" where
  "pow2 e = 2 powi e"

definition binade :: "real \<Rightarrow> int" where
  "binade x = (if 1 \<le> \<bar>x\<bar> then int (ilog2 (nat \<lfloor>\<bar>x\<bar>\<rfloor>))
               else - int (Suc (ilog2 (nat (\<lceil>1 / \<bar>x\<bar>\<rceil> - 1)))))"

definition round_half_even :: "real \<Rightarrow> int" where
  "round_half_even x =
     (let f = \<lfloor>x\<rfloor>; d = x - of_int f
      in if d < 1 / 2 then f else if 1 / 2 < d then f + 1 else if even f then f else f + 1)"

text \<open>
  Rounding to binary64: 53 significant bits in the normal range, and the fixed spacing
  \<open>2 powi (- 1074)\<close> of the subnormal numbers below \<open>2 powi (- 1022)\<close>.
\<close>

definition rnd64 :: "real \<Rightarrow> real" where
  "rnd64 x = (if x = 0 then 0
              else let ulp = pow2 (max (binade x) (- 1022) - 52)
                   in of_int (round_half_even (x / ulp)) * ulp)"

text \<open>
  \<open>a / b\<close> on Python integers is the correctly rounded quotient; it raises
  \<open>ZeroDivisionError\<close> for \<open>b = 0\<close> and \<open>OverflowError\<close> when the rounded quotient is
  beyond the largest float.
\<close>

definition py_truediv :: "int \<Rightarrow> int \<Rightarrow> py_error + real" where
  "py_truediv a b =
     (if b = 0 then Inl ZeroDivisionError
      else let q = rnd64 (of_int a / of_int b)
           in if pow2 1024 \<le> \<bar>q\<bar> then Inl OverflowError else Inr q)"

text \<open>
  A float that may be infinite: \<open>float('inf')\<close> is the first \<open>best_ratio_diff\<close>, and a
  subtraction of floats overflows to an infinity instead of raising.
\<close>

datatype xfloat = Finite real | Inf

definition float_abs_sub :: "real \<Rightarrow> real \<Rightarrow> xfloat" where
  \<comment> \<open>\<open>abs(a - b)\<close> on floats\<close>
  "float_abs_sub a b =
     (let d = \<bar>rnd64 (a - b)\<bar> in if pow2 1024 \<le> d then Inf else Finite d)"

fun float_less :: "xfloat \<Rightarrow> xfloat \<Rightarrow> bool" where
  "float_less (Finite a) (Finite b) = (a < b)"
| "float_less (Finite a) Inf = True"
| "float_less Inf _ = False"

section \<open>Grid layout: \<open>calculate_optimal_grid\<close>\<close>

text \<open>
  The function is the same in video_grid_generator.py (lines 37-56),
  video_grid_generator_advanced.py and video_grid_generator_v2_advanced.py (lines 42-61).
  A layout is the tuple \<open>(rows, cols, cell_width, cell_height)\<close>. \<open>grid_row\<close> is the body
  of the loop for one value of \<open>rows\<close>, acting on the pair of \<open>best_ratio_diff\<close> and
  \<open>best_layout\<close>; \<open>grid_loop\<close> runs it over the values of the range, and an exception
  ends the loop. The statements of the body are kept in the order of the source, so
  that the division by \<open>cols\<close> comes after the two float divisions.
\<close>

type_synonym layout = "int \<times> int \<times> int \<times> int"

definition grid_row :: "int \<Rightarrow> int \<Rightarrow> int \<Rightarrow> real \<Rightarrow> xfloat \<times> layout option \<Rightarrow> int
    \<Rightarrow> py_error + (xfloat \<times> layout option)" where
  "grid_row num_videos target_width target_height target_ratio best rows =
     (case py_truediv num_videos rows of
        Inl e \<Rightarrow> Inl e
      | Inr q \<Rightarrow>
          let cols = \<lceil>q\<rceil> in
          if num_videos \<le> rows * cols then
            (case py_truediv cols rows of
               Inl e \<Rightarrow> Inl e
             | Inr grid_ratio \<Rightarrow>
                 let ratio_diff = float_abs_sub grid_ratio target_ratio in
                 if cols = 0 then Inl ZeroDivisionError
                 else let cell_width = target_width div cols;
                          cell_height = target_height div rows
                      in if float_less ratio_diff (fst best)
                         then Inr (ratio_diff, Some (rows, cols, cell_width, cell_height))
                         else Inr best)
          else Inr best)"

fun grid_loop :: "int \<Rightarrow> int \<Rightarrow> int \<Rightarrow> real \<Rightarrow> xfloat \<times> layout option \<Rightarrow> int list
    \<Rightarrow> py_error + (xfloat \<times> layout option)" where
  "grid_loop n w h t best [] = Inr best"
| "grid_loop n w h t best (rows # rest) =
     (case grid_row n w h t best rows of
        Inl e \<Rightarrow> Inl e
      | Inr best' \<Rightarrow> grid_loop n w h t best' rest)"

text \<open>\<open>range(1, 20)\<close> is the list \<open>[1..19]\<close>; the result \<open>None\<close> of Python is \<open>None\<close> here.\<close>

definition calculate_optimal_grid :: "int \<Rightarrow> int \<Rightarrow> int \<Rightarrow> py_error + layout option" where
  "calculate_optimal_grid num_videos target_width target_height =
     (case py_truediv target_width target_height of
        Inl e \<Rightarrow> Inl e
      | Inr target_ratio \<Rightarrow>
          (case grid_loop num_videos target_width target_height target_ratio (Inf, None) [1..19] of
             Inl e \<Rightarrow> Inl e
           | Inr best \<Rightarrow> Inr (snd best)))"

text \<open>
  The difference that the loop computes for a row count \<open>r\<close>: the float distance between
  the float ratio of the candidate grid and the float ratio of the canvas.
\<close>

definition fl_div :: "int \<Rightarrow> int \<Rightarrow> real" where
  "fl_div a b = rnd64 (of_int a / of_int b)"

definition computed_diff :: "int \<Rightarrow> int \<Rightarrow> int \<Rightarrow> int \<Rightarrow> xfloat" where
  "computed_diff num_videos target_width target_height r =
     float_abs_sub (fl_div \<lceil>fl_div num_videos r\<rceil> r) (fl_div target_width target_height)"

text \<open>
  The choice of the layout in the drivers (video_grid_generator_v2_advanced.py, lines
  166-171; the same lines are in the other two generators): a given \<open>grid_layout\<close> is
  unpacked and the cell sizes are floor divisions, otherwise the search runs. Unpacking
  the \<open>None\<close> that the search may return raises \<open>TypeError\<close>.
\<close>

definition resolve_grid_layout :: "(int \<times> int) option \<Rightarrow> int \<Rightarrow> int \<Rightarrow> int \<Rightarrow> py_error + layout" where
  "resolve_grid_layout grid_layout total_videos target_width target_height =
     (case grid_layout of
        Some (rows, cols) \<Rightarrow>
          if cols = 0 then Inl ZeroDivisionError
          else if rows = 0 then Inl ZeroDivisionError
          else Inr (rows, cols, target_width div cols, target_height div rows)
      | None \<Rightarrow>
          (case calculate_optimal_grid total_videos target_width target_height of
             Inl e \<Rightarrow> Inl e
           | Inr None \<Rightarrow> Inl TypeError
           | Inr (Some l) \<Rightarrow> Inr l))"

section \<open>Selection: \<open>create_balanced_video_list\<close>\<close>

text \<open>
  The function (video_grid_generator_v2_advanced.py, lines 97-139) has no parameter for
  a seed or a generator: it calls \<open>random.choices\<close> and \<open>random.shuffle\<close> of the
  process-wide generator. That generator is modelled by the sequence of its coming raw
  outputs, and a draw below \<open>n\<close> takes the next output modulo \<open>n\<close>; the function gets the
  generator as an argument and returns what is left of it.
\<close>

type_synonym rng = "nat \<Rightarrow> nat"

definition randbelow :: "nat \<Rightarrow> rng \<Rightarrow> nat \<times> rng" where
  "randbelow n g = (g 0 mod n, \<lambda>i. g (Suc i))"

definition rng_const :: "nat \<Rightarrow> rng" where
  \<comment> \<open>the generator whose every raw output is \<open>k\<close>\<close>
  "rng_const k = (\<lambda>i. k)"


text \<open>
  \<open>random.choices(population, k=k)\<close> is \<open>[population[floor(random() * n)] for i in
  repeat(None, k)]\<close>: \<open>k\<close> draws with replacement, and an \<open>IndexError\<close> at the first draw
  from an empty population.
\<close>

fun choices :: "rng \<Rightarrow> 'a list \<Rightarrow> nat \<Rightarrow> py_error + ('a list \<times> rng)" where
  "choices g population 0 = Inr ([], g)"
| "choices g population (Suc k) =
     (if population = [] then Inl IndexError
      else let (j, g') = randbelow (length population) g
           in case choices g' population k of
                Inl e \<Rightarrow> Inl e
              | Inr (xs, g'') \<Rightarrow> Inr (population ! j # xs, g''))"

text \<open>
  \<open>random.shuffle(x)\<close> is \<open>for i in reversed(range(1, len(x))): j = randbelow(i + 1);
  x[i], x[j] = x[j], x[i]\<close>.
\<close>

fun shuffle_loop :: "rng \<Rightarrow> 'a list \<Rightarrow> nat list \<Rightarrow> 'a list \<times> rng" where
  "shuffle_loop g x [] = (x, g)"
| "shuffle_loop g x (i # rest) =
     (let (j, g') = randbelow (i + 1) g
      in shuffle_loop g' (x[i := x ! j, j := x ! i]) rest)"

definition shuffle :: "rng \<Rightarrow> 'a list \<Rightarrow> 'a list \<times> rng" where
  "shuffle g x = shuffle_loop g x (rev [1..<length x])"

text \<open>The slice \<open>xs[:k]\<close> of Python; a negative \<open>k\<close> counts from the end.\<close>

definition py_prefix :: "'a list \<Rightarrow> int \<Rightarrow> 'a list" where
  "py_prefix xs k = (if 0 \<le> k then take (nat k) xs else take (nat (int (length xs) + k)) xs)"

text \<open>
  The dictionary \<open>task_videos\<close> is the list of its items in iteration order. The steps of
  the function, in the order of the source: collect the pairs of video and task name,
  cut to \<open>max_videos\<close> (\<open>None\<close> and \<open>0\<close> are both false in the test \<open>if max_videos and \<dots>\<close>),
  fill up with random repetitions, shuffle, take the first \<open>total_slots\<close>, and return the
  videos without their task names. Printing is left out.
\<close>

definition flatten_videos :: "('k \<times> 'v list) list \<Rightarrow> ('v \<times> 'k) list" where
  "flatten_videos task_videos =
     concat (map (\<lambda>(task_name, videos). map (\<lambda>video. (video, task_name)) videos) task_videos)"

definition limit_videos :: "int option \<Rightarrow> 'a list \<Rightarrow> 'a list" where
  "limit_videos max_videos all_videos =
     (case max_videos of
        None \<Rightarrow> all_videos
      | Some m \<Rightarrow> if m \<noteq> 0 \<and> m < int (length all_videos) then py_prefix all_videos m
                  else all_videos)"

definition fill_videos :: "rng \<Rightarrow> 'a list \<Rightarrow> int \<Rightarrow> py_error + ('a list \<times> rng)" where
  "fill_videos g all_videos total_slots =
     (if int (length all_videos) < total_slots
      then (case choices g all_videos (nat (total_slots - int (length all_videos))) of
              Inl e \<Rightarrow> Inl e
            | Inr (additional_videos, g') \<Rightarrow> Inr (all_videos @ additional_videos, g'))
      else Inr (all_videos, g))"

definition create_balanced_video_list ::
    "rng \<Rightarrow> ('k \<times> 'v list) list \<Rightarrow> int \<times> int \<Rightarrow> int option \<Rightarrow> bool \<Rightarrow> py_error + ('v list \<times> rng)" where
  "create_balanced_video_list g task_videos grid_size max_videos shuffle_flag =
     (let total_slots = fst grid_size * snd grid_size;
          all_videos = limit_videos max_videos (flatten_videos task_videos)
      in case fill_videos g all_videos total_slots of
           Inl e \<Rightarrow> Inl e
         | Inr (extended, g') \<Rightarrow>
             let (shuffled, g'') = (if shuffle_flag then shuffle g' extended else (extended, g'));
                 selected_videos = py_prefix shuffled total_slots
             in Inr (map fst selected_videos, g''))"


section \<open>Filter graph: the grid part of \<open>create_video_grid_v2_advanced\<close>\<close>

text \<open>
  Lines 205-240 of video_grid_generator_v2_advanced.py build the list \<open>filter_complex\<close>
  of filter descriptions and the label \<open>output_map\<close>; lines 133-170 of
  video_grid_generator.py are the same loops with one crop for all clips. A filter
  description is a value of \<open>filter\<close> in place of the formatted string, and a label is a
  value of \<open>label\<close>: \<open>V i\<close> for \<open>[v{i}]\<close>, \<open>Black i\<close> for \<open>[black{i}]\<close>, \<open>Row r\<close> for
  \<open>[row{r}]\<close> and \<open>Final\<close> for \<open>[final]\<close>. The input \<open>[{i}:v]\<close> of a crop is the \<open>i\<close>-th
  input file and no filter of the list.
\<close>

datatype label = V nat | Black nat | Row nat | Final

datatype filter =
    CropScale nat int int int int int
      \<comment> \<open>\<open>[{i}:v]crop={size}:{size}:{x}:{y},scale={cell_width}:{cell_height}[v{i}]\<close>\<close>
  | ColorFill int int int nat
      \<comment> \<open>\<open>color=black:{cell_width}x{cell_height}:duration={duration}[black{video_idx}]\<close>\<close>
  | HStack "label list" nat
      \<comment> \<open>\<open>{row_input}hstack=inputs={len(row_videos)}[row{row}]\<close>\<close>
  | VStack "label list"
      \<comment> \<open>\<open>{rows_input}vstack=inputs={len(rows_inputs)}[final]\<close>\<close>

fun filter_inputs :: "filter \<Rightarrow> label list" where
  "filter_inputs (CropScale i sq cx cy cw ch) = []"
| "filter_inputs (ColorFill cw ch dur i) = []"
| "filter_inputs (HStack ls r) = ls"
| "filter_inputs (VStack ls) = ls"

fun filter_output :: "filter \<Rightarrow> label" where
  "filter_output (CropScale i sq cx cy cw ch) = V i"
| "filter_output (ColorFill cw ch dur i) = Black i"
| "filter_output (HStack ls r) = Row r"
| "filter_output (VStack ls) = Final"

datatype kind = CropScaleKind | ColorFillKind | HStackKind | VStackKind

fun filter_kind :: "filter \<Rightarrow> kind" where
  "filter_kind (CropScale i sq cx cy cw ch) = CropScaleKind"
| "filter_kind (ColorFill cw ch dur i) = ColorFillKind"
| "filter_kind (HStack ls r) = HStackKind"
| "filter_kind (VStack ls) = VStackKind"

definition count_kind :: "kind \<Rightarrow> filter list \<Rightarrow> nat" where
  "count_kind k fc = length (filter (\<lambda>f. filter_kind f = k) fc)"

text \<open>The first loop: one crop and scale for each selected clip, from its parameters.\<close>

definition crop_scale_filters :: "'f crop_params list \<Rightarrow> int \<Rightarrow> int \<Rightarrow> filter list" where
  "crop_scale_filters video_params cell_width cell_height =
     map (\<lambda>(i, params). CropScale i (square_size params) (crop_x params) (crop_y params)
                            cell_width cell_height)
         (enumerate 0 video_params)"

text \<open>
  The loop over \<open>col\<close> of one row, on the pair of \<open>filter_complex\<close> and \<open>row_videos\<close>;
  \<open>n\<close> is \<open>len(selected_videos)\<close>.
\<close>

fun grid_cells :: "nat \<Rightarrow> int \<Rightarrow> int \<Rightarrow> int \<Rightarrow> nat \<Rightarrow> nat \<Rightarrow> filter list \<times> label list
    \<Rightarrow> nat list \<Rightarrow> filter list \<times> label list" where
  "grid_cells n cw ch dur row cols (fc, row_videos) [] = (fc, row_videos)"
| "grid_cells n cw ch dur row cols (fc, row_videos) (col # rest) =
     (let video_idx = row * cols + col
      in if video_idx < n
         then grid_cells n cw ch dur row cols (fc, row_videos @ [V video_idx]) rest
         else grid_cells n cw ch dur row cols
                (fc @ [ColorFill cw ch dur video_idx], row_videos @ [Black video_idx]) rest)"

text \<open>
  The loop over \<open>row\<close>, on the pair of \<open>filter_complex\<close> and \<open>rows_inputs\<close>. \<open>range(cols)\<close>
  is empty for \<open>cols \<le> 0\<close>, and then \<open>row_videos[0]\<close> raises \<open>IndexError\<close>.
\<close>

fun grid_rows :: "nat \<Rightarrow> int \<Rightarrow> int \<Rightarrow> int \<Rightarrow> int \<Rightarrow> filter list \<times> label list
    \<Rightarrow> nat list \<Rightarrow> py_error + (filter list \<times> label list)" where
  "grid_rows n cw ch dur cols (fc, rows_inputs) [] = Inr (fc, rows_inputs)"
| "grid_rows n cw ch dur cols (fc, rows_inputs) (row # rest) =
     (case grid_cells n cw ch dur row (nat cols) (fc, []) [0..<nat cols] of
        (fc', row_videos) \<Rightarrow>
          if 1 < length row_videos
          then grid_rows n cw ch dur cols
                 (fc' @ [HStack row_videos row], rows_inputs @ [Row row]) rest
          else (case row_videos of
                  [] \<Rightarrow> Inl IndexError
                | l # _ \<Rightarrow> grid_rows n cw ch dur cols (fc', rows_inputs @ [l]) rest))"

text \<open>
  The whole of lines 205-240: the result is \<open>filter_complex\<close> and \<open>output_map\<close>. For
  \<open>rows \<le> 0\<close> the list \<open>rows_inputs\<close> is empty and \<open>rows_inputs[0]\<close> raises \<open>IndexError\<close>.
\<close>

definition build_filter_complex ::
    "'f crop_params list \<Rightarrow> int \<Rightarrow> int \<Rightarrow> int \<Rightarrow> int \<Rightarrow> int \<Rightarrow> py_error + (filter list \<times> label)" where
  "build_filter_complex video_params cell_width cell_height duration rows cols =
     (case grid_rows (length video_params) cell_width cell_height duration cols
             (crop_scale_filters video_params cell_width cell_height, []) [0..<nat rows] of
        Inl e \<Rightarrow> Inl e
      | Inr (fc, rows_inputs) \<Rightarrow>
          if 1 < length rows_inputs then Inr (fc @ [VStack rows_inputs], Final)
          else (case rows_inputs of
                  [] \<Rightarrow> Inl IndexError
                | l # _ \<Rightarrow> Inr (fc, l)))"

text \<open>
  No forward reference: every label a filter consumes is the output of a filter earlier
  in the list (\<open>seen\<close> holds the outputs so far).
\<close>

fun refs_ok :: "label set \<Rightarrow> filter list \<Rightarrow> bool" where
  "refs_ok seen [] = True"
| "refs_ok seen (f # fs) =
     (set (filter_inputs f) \<subseteq> seen \<and> refs_ok (insert (filter_output f) seen) fs)"

definition no_forward_refs :: "filter list \<Rightarrow> bool" where
  "no_forward_refs fc = refs_ok {} fc"

text \<open>The label of the cell with index \<open>i\<close> when \<open>n\<close> clips are selected.\<close>

definition cell_label :: "nat \<Rightarrow> nat \<Rightarrow> label" where
  "cell_label n i = (if i < n then V i else Black i)"

text \<open>
  What one row adds to \<open>filter_complex\<close>, and the label it adds to \<open>rows_inputs\<close>, for
  \<open>cols \<ge> 1\<close> columns: the fills of its cells beyond the selection, then one \<open>hstack\<close>
  of its cell labels if there is more than one column; the row is named by that
  \<open>hstack\<close>, or by its only cell.
\<close>

definition row_labels :: "nat \<Rightarrow> nat \<Rightarrow> nat \<Rightarrow> label list" where
  "row_labels n cols row = map (\<lambda>col. cell_label n (row * cols + col)) [0..<cols]"

definition row_blacks :: "nat \<Rightarrow> int \<Rightarrow> int \<Rightarrow> int \<Rightarrow> nat \<Rightarrow> nat \<Rightarrow> filter list" where
  "row_blacks n cw ch dur cols row =
     map (ColorFill cw ch dur) (filter (\<lambda>i. \<not> i < n) (map (\<lambda>col. row * cols + col) [0..<cols]))"

definition row_filters :: "nat \<Rightarrow> int \<Rightarrow> int \<Rightarrow> int \<Rightarrow> nat \<Rightarrow> nat \<Rightarrow> filter list" where
  "row_filters n cw ch dur cols row =
     row_blacks n cw ch dur cols row
     @ (if 1 < cols then [HStack (row_labels n cols row) row] else [])"

definition row_node :: "nat \<Rightarrow> nat \<Rightarrow> nat \<Rightarrow> label" where
  "row_node n cols row = (if 1 < cols then Row row else cell_label n (row * cols))"

section \<open>Planning as a whole: \<open>create_video_grid_v2_advanced\<close>\<close>

text \<open>
  The planning part of the driver (video_grid_generator_v2_advanced.py, lines 152-240),
  up to the call of the external engine: the function returns \<open>False\<close> when no clip was
  found (\<open>None\<close> here); otherwise it chooses the layout, selects the clips, asks the probe
  for the stream of every selected clip and builds the filter graph. The probe is the
  external \<open>ffprobe\<close>, a function from a clip to its stream here. Printing is left out.
  The result holds the layout, the selected clips, \<open>filter_complex\<close> and \<open>output_map\<close>.
\<close>

definition probe_const :: "'f video_stream \<Rightarrow> 'v \<Rightarrow> 'f video_stream" where
  \<comment> \<open>the probe that reports the same stream for every clip\<close>
  "probe_const s = (\<lambda>v. s)"

definition plan_video_grid ::
    "rng \<Rightarrow> ('k \<times> 'v list) list \<Rightarrow> ('v \<Rightarrow> 'f video_stream) \<Rightarrow> int \<Rightarrow> int \<Rightarrow> int
     \<Rightarrow> (int \<times> int) option \<Rightarrow> int option \<Rightarrow> bool \<Rightarrow> string
     \<Rightarrow> py_error + (layout \<times> 'v list \<times> filter list \<times> label) option" where
  "plan_video_grid g task_videos probe target_width target_height duration grid_layout
       max_videos shuffle_flag crop_mode =
     (if task_videos = [] then Inr None
      else
        let total_videos = sum_list (map (\<lambda>(task_name, videos). int (length videos)) task_videos)
        in case resolve_grid_layout grid_layout total_videos target_width target_height of
             Inl e \<Rightarrow> Inl e
           | Inr (rows, cols, cell_width, cell_height) \<Rightarrow>
               (case create_balanced_video_list g task_videos (rows, cols) max_videos shuffle_flag of
                  Inl e \<Rightarrow> Inl e
                | Inr (selected_videos, g') \<Rightarrow>
                    let video_params =
                          map (\<lambda>video_file. get_video_crop_params (probe video_file) crop_mode)
                              selected_videos
                    in case build_filter_complex video_params cell_width cell_height duration
                              rows cols of
                         Inl e \<Rightarrow> Inl e
                       | Inr (filter_complex, output_map) \<Rightarrow>
                           Inr (Some ((rows, cols, cell_width, cell_height), selected_videos,
                                      filter_complex, output_map))))"

section \<open>Crop geometry: theorems\<close>

text \<open>
  C4. For a stream of width \<open>w\<close> and height \<open>h\<close>, both positive, the crop is a square of
  side \<open>min w h\<close>; its horizontal offset is \<open>(w - size) div 2\<close> for every anchor; its
  vertical offset is \<open>(h - size) div 2\<close> for \<open>center\<close>, \<open>0\<close> for \<open>top\<close> and \<open>h - size\<close>
  for \<open>bottom\<close>; an anchor that is none of the three gives exactly the result of
  \<open>center\<close>; and a 1920 by 1080 stream with \<open>center\<close> gives size 1080, offsets 420 and 0.
\<close>

theorem resolveCrop_geometry:
  fixes s :: "'f video_stream"
  assumes "0 < width s" and "0 < height s"
  shows "square_size (get_video_crop_params s m) = min (width s) (height s)
    \<and> crop_x (get_video_crop_params s m) = (width s - min (width s) (height s)) div 2
    \<and> crop_y (get_video_crop_params s ''center'') = (height s - min (width s) (height s)) div 2
    \<and> crop_y (get_video_crop_params s ''top'') = 0
    \<and> crop_y (get_video_crop_params s ''bottom'') = height s - min (width s) (height s)
    \<and> (m \<noteq> ''center'' \<and> m \<noteq> ''top'' \<and> m \<noteq> ''bottom'' \<longrightarrow>
           get_video_crop_params s m = get_video_crop_params s ''center'')
    \<and> (width s = 1920 \<and> height s = 1080 \<longrightarrow>
           square_size (get_video_crop_params s ''center'') = 1080 \<and>
           crop_x (get_video_crop_params s ''center'') = 420 \<and>
           crop_y (get_video_crop_params s ''center'') = 0)"
  by (simp add: get_video_crop_params_def Let_def)

theorem resolveCrop_geometry_witness:
  "square_size (get_video_crop_params \<lparr>width = 1920, height = 1080, r_frame_rate = ()\<rparr> ''middle'') = 1080
   \<and> crop_x (get_video_crop_params \<lparr>width = 1920, height = 1080, r_frame_rate = ()\<rparr> ''middle'') = 420
   \<and> crop_y (get_video_crop_params \<lparr>width = 1920, height = 1080, r_frame_rate = ()\<rparr> ''center'') = 0
   \<and> crop_y (get_video_crop_params \<lparr>width = 1920, height = 1080, r_frame_rate = ()\<rparr> ''bottom'') = 0
   \<and> get_video_crop_params \<lparr>width = 1920, height = 1080, r_frame_rate = ()\<rparr> ''middle''
       = get_video_crop_params \<lparr>width = 1920, height = 1080, r_frame_rate = ()\<rparr> ''center''"
  using resolveCrop_geometry [of "\<lparr>width = 1920, height = 1080, r_frame_rate = ()\<rparr>" "''middle''"]
  by simp



section \<open>Python floats: properties of the rounding\<close>

text \<open>
  The leading-bit function brackets its argument between two powers of two; from this,
  \<open>binade\<close> gives a power of two below \<open>\<bar>x\<bar>\<close>, the rounding error is at most half a
  unit in the last place, integers below \<open>2 ^ 53\<close> are floats, and the ceiling of a
  rounded quotient of integers up to \<open>2 ^ 52\<close> is the ceiling of the exact quotient.
\<close>

lemma ilog2_le: "0 < n \<Longrightarrow> 2 ^ ilog2 n \<le> n"
proof (induction n rule: ilog2.induct)
  case (1 n)
  show ?case
  proof (cases "n < 2")
    case True
    with 1(2) show ?thesis by (simp add: ilog2.simps)
  next
    case False
    then have "0 < n div 2" by simp
    with 1(1) False have "2 ^ ilog2 (n div 2) \<le> n div 2" by simp
    then have "2 * 2 ^ ilog2 (n div 2) \<le> n" by simp
    with False show ?thesis by (subst ilog2.simps) simp
  qed
qed

lemma ilog2_gt: "n < 2 ^ Suc (ilog2 n)"
proof (induction n rule: ilog2.induct)
  case (1 n)
  show ?case
  proof (cases "n < 2")
    case True
    then show ?thesis by (simp add: ilog2.simps)
  next
    case False
    with 1 have "n div 2 < 2 ^ Suc (ilog2 (n div 2))" by simp
    then have "n < 2 * 2 ^ Suc (ilog2 (n div 2))" by simp
    with False show ?thesis by (subst ilog2.simps) simp
  qed
qed

lemma pow2_pos: "0 < pow2 e"
  by (simp add: pow2_def)

lemma pow2_add: "pow2 (a + b) = pow2 a * pow2 b"
  by (simp add: pow2_def power_int_add)

lemma pow2_mono: "a \<le> b \<Longrightarrow> pow2 a \<le> pow2 b"
  by (simp add: pow2_def power_int_increasing)

lemma pow2_nat: "pow2 (int k) = 2 ^ k"
  by (simp add: pow2_def)

lemma pow2_neg: "pow2 (- int k) = 1 / 2 ^ k"
  by (simp add: pow2_def power_int_minus field_simps)

lemma binade_le: assumes "x \<noteq> 0" shows "pow2 (binade x) \<le> \<bar>x\<bar>"
proof (cases "1 \<le> \<bar>x\<bar>")
  case True
  then have pos: "0 < nat \<lfloor>\<bar>x\<bar>\<rfloor>" by simp
  have "(2::real) ^ ilog2 (nat \<lfloor>\<bar>x\<bar>\<rfloor>) \<le> of_nat (nat \<lfloor>\<bar>x\<bar>\<rfloor>)"
  proof -
    have "real (2 ^ ilog2 (nat \<lfloor>\<bar>x\<bar>\<rfloor>)) \<le> real (nat \<lfloor>\<bar>x\<bar>\<rfloor>)"
      using ilog2_le [OF pos] by (simp only: of_nat_le_iff)
    then show ?thesis by simp
  qed
  also have "\<dots> = of_int \<lfloor>\<bar>x\<bar>\<rfloor>" using True by simp
  also have "\<dots> \<le> \<bar>x\<bar>" by simp
  finally have "(2::real) ^ ilog2 (nat \<lfloor>\<bar>x\<bar>\<rfloor>) \<le> \<bar>x\<bar>" .
  moreover have "binade x = int (ilog2 (nat \<lfloor>\<bar>x\<bar>\<rfloor>))"
    using True unfolding binade_def by (simp only: if_True)
  ultimately show ?thesis by (simp only: pow2_nat)
next
  case False
  define m where "m = \<lceil>1 / \<bar>x\<bar>\<rceil>"
  define k where "k = Suc (ilog2 (nat (m - 1)))"
  from assms False have ax: "0 < \<bar>x\<bar>" "\<bar>x\<bar> < 1" by auto
  then have "1 < 1 / \<bar>x\<bar>" by (simp add: field_simps)
  then have "2 \<le> m" unfolding m_def by linarith
  have "nat (m - 1) < 2 ^ k" unfolding k_def by (rule ilog2_gt)
  then have "int (nat (m - 1)) < int (2 ^ k)" by (simp only: of_nat_less_iff)
  then have "m - 1 < 2 ^ k" using \<open>2 \<le> m\<close> by simp
  then have "m \<le> 2 ^ k" by simp
  then have "(of_int m :: real) \<le> of_int (2 ^ k)" by (simp only: of_int_le_iff)
  then have "(of_int m :: real) \<le> 2 ^ k" by simp
  moreover have "1 / \<bar>x\<bar> \<le> of_int m" unfolding m_def by simp
  ultimately have "1 / \<bar>x\<bar> \<le> 2 ^ k" by (rule order_trans [rotated])
  then have "1 / 2 ^ k \<le> \<bar>x\<bar>" using ax by (simp add: field_simps)
  moreover have "binade x = - int k" using False unfolding binade_def k_def m_def by (simp only: if_False)
  ultimately show ?thesis by (simp only: pow2_neg)
qed

lemma rhe_err: "\<bar>of_int (round_half_even y) - y\<bar> \<le> 1 / 2"
proof -
  have "of_int \<lfloor>y\<rfloor> \<le> y" "y < of_int \<lfloor>y\<rfloor> + 1" by linarith+
  then show ?thesis by (auto simp: round_half_even_def Let_def)
qed

lemma rhe_int: "round_half_even (of_int j) = j"
  by (simp add: round_half_even_def)

lemma rnd64_err:
  "\<bar>rnd64 x - x\<bar> \<le> pow2 (max (binade x) (- 1022) - 52) / 2"
proof (cases "x = 0")
  case True
  then show ?thesis using pow2_pos [of "max (binade x) (- 1022) - 52"] by (simp add: rnd64_def)
next
  case False
  define u where "u = pow2 (max (binade x) (- 1022) - 52)"
  have u: "0 < u" unfolding u_def by (rule pow2_pos)
  have "rnd64 x - x = (of_int (round_half_even (x / u)) - x / u) * u"
    using False u by (simp add: rnd64_def Let_def u_def [symmetric] field_simps)
  then have "\<bar>rnd64 x - x\<bar> = \<bar>of_int (round_half_even (x / u)) - x / u\<bar> * u"
    using u by (simp add: abs_mult)
  also have "\<dots> \<le> (1 / 2) * u"
    using rhe_err [of "x / u"] u by (intro mult_right_mono) auto
  finally show ?thesis by (simp add: u_def)
qed

lemma rnd64_rel: "\<bar>rnd64 x - x\<bar> \<le> max \<bar>x\<bar> (pow2 (- 1022)) / 2 ^ 53"
proof (cases "x = 0")
  case True
  then show ?thesis using pow2_pos [of "- 1022"] by (simp add: rnd64_def)
next
  case False
  define e where "e = max (binade x) (- 1022)"
  have "pow2 e \<le> max \<bar>x\<bar> (pow2 (- 1022))"
    using binade_le [OF False] by (auto simp: e_def max_def)
  moreover have "pow2 (e - 52) / 2 = pow2 e / 2 ^ 53"
  proof -
    have "pow2 (e - 52) = pow2 e * pow2 (- int 52)" using pow2_add [of e "- 52"] by simp
    then show ?thesis by (simp only: pow2_neg) simp
  qed
  ultimately have "pow2 (e - 52) / 2 \<le> max \<bar>x\<bar> (pow2 (- 1022)) / 2 ^ 53"
    by (simp add: divide_right_mono)
  then show ?thesis using rnd64_err [of x] by (simp add: e_def)
qed

lemma pow2_small: "pow2 (- 1022) \<le> 1"
  using pow2_mono [of "- 1022" 0] by (simp add: pow2_def)

lemma rnd64_bound: assumes "\<bar>x\<bar> \<le> B" "1 \<le> B" shows "\<bar>rnd64 x\<bar> \<le> 2 * B"
proof -
  have "max \<bar>x\<bar> (pow2 (- 1022)) \<le> B" using assms pow2_small by simp
  moreover have "max \<bar>x\<bar> (pow2 (- 1022)) / 2 ^ 53 \<le> max \<bar>x\<bar> (pow2 (- 1022)) / 1"
    by (intro divide_left_mono) auto
  ultimately have "max \<bar>x\<bar> (pow2 (- 1022)) / 2 ^ 53 \<le> B" by linarith
  with rnd64_rel [of x] assms show ?thesis by linarith
qed

lemma pow2_1024_big: "2 ^ 60 < pow2 1024"
proof -
  have "pow2 61 \<le> pow2 1024" by (rule pow2_mono) simp
  moreover have "pow2 61 = 2 ^ 61" using pow2_nat [of 61] by simp
  ultimately show ?thesis by simp
qed

lemma rnd64_int: assumes "\<bar>m\<bar> < 2 ^ 53" shows "rnd64 (of_int m) = of_int m"
proof (cases "m = 0")
  case True
  then show ?thesis by (simp add: rnd64_def)
next
  case False
  define x :: real where "x = of_int m"
  have x0: "x \<noteq> 0" using False by (simp add: x_def)
  have x1: "1 \<le> \<bar>x\<bar>"
  proof -
    have "1 \<le> \<bar>m\<bar>" using False by simp
    then have "(of_int 1 :: real) \<le> of_int \<bar>m\<bar>" by (simp only: of_int_le_iff)
    then show ?thesis by (simp add: x_def)
  qed
  have xb: "\<bar>x\<bar> < 2 ^ 53"
  proof -
    have "(of_int \<bar>m\<bar> :: real) < of_int (2 ^ 53)" using assms by (simp only: of_int_less_iff)
    then show ?thesis by (simp add: x_def)
  qed
  define e where "e = binade x"
  have e0: "0 \<le> e" using x1 by (simp add: e_def binade_def)
  have "e < 53"
  proof (rule ccontr)
    assume "\<not> e < 53"
    then have "pow2 53 \<le> pow2 e" by (intro pow2_mono) simp
    moreover have "pow2 53 = 2 ^ 53" using pow2_nat [of 53] by simp
    ultimately show False using binade_le [OF x0] xb by (simp add: e_def)
  qed
  define k where "k = nat (52 - e)"
  have ek: "e - 52 = - int k" using \<open>e < 53\<close> by (simp add: k_def)
  have ulp: "pow2 (max e (- 1022) - 52) = 1 / 2 ^ k"
    using e0 ek by (simp add: max_def pow2_neg)
  have "x / (1 / 2 ^ k) = of_int (m * 2 ^ k)" by (simp add: x_def)
  then have "round_half_even (x / (1 / 2 ^ k)) = m * 2 ^ k" by (simp only: rhe_int)
  then have "rnd64 x = of_int (m * 2 ^ k) * (1 / 2 ^ k)"
    using x0 ulp by (simp add: rnd64_def Let_def e_def)
  then show ?thesis by (simp add: x_def)
qed

lemma rnd64_ceiling:
  assumes n: "1 \<le> n" "n \<le> 2 ^ 52" and r: "1 \<le> r" "r \<le> 2 ^ 52"
  shows "\<lceil>rnd64 (of_int n / of_int r)\<rceil> = \<lceil>(of_int n :: real) / of_int r\<rceil>"
proof (cases "r dvd n")
  case True
  then obtain q where q: "n = r * q" by (auto simp: dvd_def)
  have "0 < r * q" using n q by simp
  then have "0 < q" using r by (simp add: zero_less_mult_iff)
  have "q \<le> n" using q r \<open>0 < q\<close> by (simp add: mult_le_cancel_right1)
  then have "\<bar>q\<bar> < 2 ^ 53" using n \<open>0 < q\<close> by simp
  have "(of_int n :: real) / of_int r = of_int q" using q r by simp
  then show ?thesis using rnd64_int [OF \<open>\<bar>q\<bar> < 2 ^ 53\<close>] by simp
next
  case False
  define x :: real where "x = of_int n / of_int r"
  define c where "c = \<lceil>x\<rceil>"
  have rpos: "(0::real) < of_int r" using r by simp
  have xpos: "0 < x" using n r by (simp add: x_def)
  have "x \<le> of_int c" "of_int c - 1 < x" unfolding c_def by linarith+
  then have "of_int n \<le> (of_int (c * r) :: real)" "(of_int ((c - 1) * r) :: real) < of_int n"
    using rpos by (simp_all add: x_def field_simps)
  then have le: "n \<le> c * r" and gt: "(c - 1) * r < n" by (simp_all only: of_int_le_iff of_int_less_iff)
  from False have "n \<noteq> c * r" by auto
  with le have "n + 1 \<le> c * r" by simp
  then have "(of_int (n + 1) :: real) \<le> of_int (c * r)" by (simp only: of_int_le_iff)
  then have "(of_int n + 1) / of_int r \<le> (of_int c :: real)"
    using rpos by (simp add: pos_divide_le_eq)
  then have up: "x + 1 / of_int r \<le> of_int c" by (simp add: x_def add_divide_distrib)
  from gt have "(c - 1) * r + 1 \<le> n" by simp
  then have "(of_int ((c - 1) * r + 1) :: real) \<le> of_int n" by (simp only: of_int_le_iff)
  then have "(of_int c - 1 :: real) + 1 / of_int r \<le> of_int n / of_int r"
    using rpos by (simp add: pos_le_divide_eq distrib_right)
  then have lo: "of_int c - 1 + 1 / of_int r \<le> x" by (simp add: x_def)
  have xr: "x \<le> 2 ^ 52 / of_int r"
  proof -
    have "(of_int n :: real) \<le> of_int (2 ^ 52)" using n by (simp only: of_int_le_iff)
    then show ?thesis using rpos by (simp add: x_def divide_right_mono)
  qed
  have "1 / of_int r \<le> x"
  proof -
    have "(1::real) \<le> of_int n" using n by simp
    then show ?thesis using rpos by (simp add: x_def divide_right_mono)
  qed
  moreover have "pow2 (- 1022) \<le> 1 / of_int r"
  proof -
    have "pow2 (- 1022) \<le> pow2 (- int 52)" by (rule pow2_mono) simp
    then have "pow2 (- 1022) \<le> 1 / 2 ^ 52" by (simp only: pow2_neg)
    moreover have "(of_int r :: real) \<le> of_int (2 ^ 52)" using r by (simp only: of_int_le_iff)
    then have "(1::real) / 2 ^ 52 \<le> 1 / of_int r" using rpos by (simp add: frac_le)
    ultimately show ?thesis by linarith
  qed
  ultimately have "max \<bar>x\<bar> (pow2 (- 1022)) = x" using xpos by (simp add: max_def)
  then have "\<bar>rnd64 x - x\<bar> \<le> x / 2 ^ 53" using rnd64_rel [of x] by simp
  also have "\<dots> \<le> (2 ^ 52 / of_int r) / 2 ^ 53" using xr by (simp add: divide_right_mono)
  also have "\<dots> = 1 / (2 * of_int r)" by simp
  also have "\<dots> < 1 / of_int r" using rpos by (simp add: field_simps)
  finally have "\<bar>rnd64 x - x\<bar> < 1 / of_int r" .
  with up lo have "of_int c - 1 < rnd64 x" "rnd64 x \<le> of_int c" by linarith+
  then have "\<lceil>rnd64 x\<rceil> = c" by (intro ceiling_unique) auto
  then show ?thesis by (simp add: x_def c_def)
qed

section \<open>Grid layout: theorems\<close>

text \<open>The order of floats that may be infinite is a strict linear order.\<close>

lemma float_less_irrefl: "\<not> float_less a a"
  by (cases a) auto

lemma float_less_trans: "float_less a b \<Longrightarrow> float_less b c \<Longrightarrow> float_less a c"
  by (cases a; cases b; cases c) auto

lemma float_less_cases: "float_less a c \<Longrightarrow> float_less a b \<or> float_less b c"
  by (cases a; cases b; cases c) auto

lemma float_abs_sub_finite:
  assumes "\<bar>a\<bar> \<le> 2 ^ 53" "\<bar>b\<bar> \<le> 2 ^ 53"
  shows "float_less (float_abs_sub a b) Inf"
proof -
  have "\<bar>a - b\<bar> \<le> 2 ^ 54" using assms by simp
  then have "\<bar>rnd64 (a - b)\<bar> \<le> 2 * 2 ^ 54" by (rule rnd64_bound) simp
  then have "\<bar>rnd64 (a - b)\<bar> < pow2 1024" using pow2_1024_big by simp
  then show ?thesis by (simp add: float_abs_sub_def Let_def)
qed

lemma fl_div_bound:
  assumes "0 \<le> a" "a \<le> 2 ^ 52" "1 \<le> b"
  shows "\<bar>fl_div a b\<bar> \<le> 2 ^ 53"
proof -
  have "(of_int a :: real) \<le> of_int (2 ^ 52)" using assms by (simp only: of_int_le_iff)
  then have a: "(of_int a :: real) \<le> 2 ^ 52" by simp
  have "(of_int a :: real) / of_int b \<le> of_int a / 1"
    using assms by (intro divide_left_mono) auto
  with a have "\<bar>(of_int a :: real) / of_int b\<bar> \<le> 2 ^ 52" using assms by simp
  then have "\<bar>rnd64 (of_int a / of_int b)\<bar> \<le> 2 * 2 ^ 52" by (rule rnd64_bound) simp
  then show ?thesis by (simp add: fl_div_def)
qed

lemma py_truediv_ok:
  assumes "0 \<le> a" "a \<le> 2 ^ 52" "1 \<le> b"
  shows "py_truediv a b = Inr (fl_div a b)"
proof -
  have "\<bar>fl_div a b\<bar> < pow2 1024" using fl_div_bound [OF assms] pow2_1024_big by simp
  then show ?thesis using assms by (simp add: py_truediv_def fl_div_def Let_def)
qed

lemma ceiling_quot:
  assumes "1 \<le> n" "1 \<le> r"
  shows "1 \<le> \<lceil>(of_int n :: real) / of_int r\<rceil>"
    and "\<lceil>(of_int n :: real) / of_int r\<rceil> \<le> n"
    and "n \<le> r * \<lceil>(of_int n :: real) / of_int r\<rceil>"
proof -
  define x :: real where "x = of_int n / of_int r"
  have rpos: "(0::real) < of_int r" using assms by simp
  have "0 < x" using assms by (simp add: x_def)
  then show "1 \<le> \<lceil>(of_int n :: real) / of_int r\<rceil>" unfolding x_def [symmetric] by linarith
  have "x \<le> of_int n / 1" unfolding x_def using assms by (intro divide_left_mono) auto
  then have "x \<le> of_int n" by simp
  then show "\<lceil>(of_int n :: real) / of_int r\<rceil> \<le> n"
    unfolding x_def [symmetric] by (simp add: ceiling_le_iff)
  have "x \<le> of_int \<lceil>x\<rceil>" by simp
  then have "of_int n / of_int r \<le> (of_int \<lceil>x\<rceil> :: real)" by (simp add: x_def)
  then have "of_int n \<le> (of_int \<lceil>x\<rceil> :: real) * of_int r"
    using rpos by (simp only: pos_divide_le_eq)
  then have "(of_int n :: real) \<le> of_int (r * \<lceil>x\<rceil>)" by (simp add: mult.commute)
  then show "n \<le> r * \<lceil>(of_int n :: real) / of_int r\<rceil>"
    unfolding x_def [symmetric] by (simp only: of_int_le_iff)
qed

lemma grid_row_good:
  assumes n: "1 \<le> n" "n \<le> 2 ^ 52" and r: "1 \<le> r" "r \<le> 19"
  shows "grid_row n w h (fl_div w h) best r =
           Inr (if float_less (computed_diff n w h r) (fst best)
                then (computed_diff n w h r,
                      Some (r, \<lceil>(of_int n :: real) / of_int r\<rceil>,
                            w div \<lceil>(of_int n :: real) / of_int r\<rceil>, h div r))
                else best)"
proof -
  define c where "c = \<lceil>(of_int n :: real) / of_int r\<rceil>"
  have r52: "r \<le> 2 ^ 52" using r by simp
  have q: "py_truediv n r = Inr (fl_div n r)" using n r by (intro py_truediv_ok) auto
  have cq: "\<lceil>fl_div n r\<rceil> = c"
    unfolding fl_div_def c_def using n r r52 by (intro rnd64_ceiling) auto
  have c: "1 \<le> c" "c \<le> n" "n \<le> r * c"
    unfolding c_def using ceiling_quot [of n r] n r by auto
  have g: "py_truediv c r = Inr (fl_div c r)" using c n r by (intro py_truediv_ok) auto
  have d: "computed_diff n w h r = float_abs_sub (fl_div c r) (fl_div w h)"
    by (simp add: computed_diff_def cq)
  have nz: "c \<noteq> 0" using c by simp
  show ?thesis
    unfolding c_def [symmetric] grid_row_def q sum.case Let_def cq
    by (simp only: c(3) if_True g sum.case nz if_False d if_distrib [where f = Inr])
qed

lemma grid_loop_argmin:
  assumes "\<And>r best. r \<in> set rs \<Longrightarrow>
             grid_row n w h t best r = Inr (if float_less (d r) (fst best) then (d r, Some (lay r)) else best)"
  shows "\<exists>best'. grid_loop n w h t best rs = Inr best'
           \<and> (\<forall>r\<in>set rs. \<not> float_less (d r) (fst best'))
           \<and> (best' = best
              \<or> (\<exists>ys r zs. rs = ys @ r # zs \<and> best' = (d r, Some (lay r))
                    \<and> float_less (d r) (fst best) \<and> (\<forall>y\<in>set ys. float_less (d r) (d y))))"
  using assms
proof (induction rs arbitrary: best)
  case Nil
  then show ?case by simp
next
  case (Cons r rs)
  define b1 where "b1 = (if float_less (d r) (fst best) then (d r, Some (lay r)) else best)"
  have step: "grid_row n w h t best r = Inr b1" using Cons.prems [of r best] by (simp add: b1_def)
  have "\<And>r best. r \<in> set rs \<Longrightarrow>
          grid_row n w h t best r = Inr (if float_less (d r) (fst best) then (d r, Some (lay r)) else best)"
    using Cons.prems by simp
  from Cons.IH [OF this, of b1] obtain best' where ih:
    "grid_loop n w h t b1 rs = Inr best'
      \<and> (\<forall>x\<in>set rs. \<not> float_less (d x) (fst best'))
      \<and> (best' = b1 \<or> (\<exists>ys x zs. rs = ys @ x # zs \<and> best' = (d x, Some (lay x))
                \<and> float_less (d x) (fst b1) \<and> (\<forall>y\<in>set ys. float_less (d x) (d y))))"
    by (rule exE)
  note res = ih [THEN conjunct1]
    and low = ih [THEN conjunct2, THEN conjunct1]
    and alt = ih [THEN conjunct2, THEN conjunct2]
  have loop: "grid_loop n w h t best (r # rs) = Inr best'" by (simp add: step res)
  have b1_r: "\<not> float_less (d r) (fst b1)"
    using float_less_irrefl [of "d r"] by (simp add: b1_def)
  have "(\<forall>x\<in>set (r # rs). \<not> float_less (d x) (fst best'))
      \<and> (best' = best
          \<or> (\<exists>ys x zs. r # rs = ys @ x # zs \<and> best' = (d x, Some (lay x))
                \<and> float_less (d x) (fst best) \<and> (\<forall>y\<in>set ys. float_less (d x) (d y))))"
  proof (rule disjE [OF alt])
    assume eq: "best' = b1"
    have "best' = best \<or> (r # rs = [] @ r # rs \<and> best' = (d r, Some (lay r))
            \<and> float_less (d r) (fst best) \<and> (\<forall>y\<in>set []. float_less (d r) (d y)))"
      using eq by (simp add: b1_def)
    then have "best' = best \<or> (\<exists>ys x zs. r # rs = ys @ x # zs \<and> best' = (d x, Some (lay x))
            \<and> float_less (d x) (fst best) \<and> (\<forall>y\<in>set ys. float_less (d x) (d y)))"
      by (elim disjE) (rule disjI1, assumption, rule disjI2, intro exI)
    moreover have "\<forall>x\<in>set (r # rs). \<not> float_less (d x) (fst best')"
      using low b1_r eq by simp
    ultimately show ?thesis by (intro conjI)
  next
    assume "\<exists>ys x zs. rs = ys @ x # zs \<and> best' = (d x, Some (lay x))
                \<and> float_less (d x) (fst b1) \<and> (\<forall>y\<in>set ys. float_less (d x) (d y))"
    then obtain ys x zs where dec_all: "rs = ys @ x # zs \<and> best' = (d x, Some (lay x))
                \<and> float_less (d x) (fst b1) \<and> (\<forall>y\<in>set ys. float_less (d x) (d y))"
      by (elim exE)
    note dec = dec_all [THEN conjunct1]
      and b' = dec_all [THEN conjunct2, THEN conjunct1]
      and lt = dec_all [THEN conjunct2, THEN conjunct2, THEN conjunct1]
      and before = dec_all [THEN conjunct2, THEN conjunct2, THEN conjunct2]
    have x_best: "float_less (d x) (fst best)"
    proof (cases "float_less (d r) (fst best)")
      case True
      then have "float_less (d x) (d r)" using lt by (simp add: b1_def)
      then show ?thesis using True by (rule float_less_trans)
    next
      case False
      then show ?thesis using lt by (simp add: b1_def)
    qed
    have x_r: "float_less (d x) (d r)"
      using float_less_cases [OF lt, of "d r"] b1_r by (elim disjE) simp_all
    have "r # rs = (r # ys) @ x # zs" using dec by simp
    moreover have "\<forall>y\<in>set (r # ys). float_less (d x) (d y)" using before x_r by simp
    ultimately have "r # rs = (r # ys) @ x # zs \<and> best' = (d x, Some (lay x))
            \<and> float_less (d x) (fst best) \<and> (\<forall>y\<in>set (r # ys). float_less (d x) (d y))"
      using b' x_best by (intro conjI)
    then have "\<exists>ys x zs. r # rs = ys @ x # zs \<and> best' = (d x, Some (lay x))
            \<and> float_less (d x) (fst best) \<and> (\<forall>y\<in>set ys. float_less (d x) (d y))"
      by (intro exI)
    moreover have "\<not> float_less (d r) (d x)"
    proof
      assume "float_less (d r) (d x)"
      then have "float_less (d r) (d r)" using x_r by (rule float_less_trans)
      then show False by (simp add: float_less_irrefl)
    qed
    then have "\<forall>y\<in>set (r # rs). \<not> float_less (d y) (fst best')"
      using low b' by simp
    ultimately show ?thesis by (intro conjI disjI2)
  qed
  with loop show ?case by (intro exI [of _ best'] conjI) (elim conjE, assumption)+
qed

lemma upto_split_before:
  assumes "[i..j] = ys @ r # zs" "r' \<in> set [i..j]" "r' < r"
  shows "r' \<in> set ys"
proof -
  have "sorted (ys @ r # zs)" using assms(1) sorted_upto [of i j] by simp
  then have "\<forall>z\<in>set zs. r \<le> z" by (simp add: sorted_append)
  moreover have "r' \<in> set ys \<or> r' = r \<or> r' \<in> set zs" using assms(1,2) by auto
  ultimately show ?thesis using assms(3) by auto
qed

lemmas float_eval = py_truediv_def rnd64_def binade_def ilog2.simps pow2_def power_int_minus
  round_half_even_def float_abs_sub_def Let_def ceiling_def


text \<open>
  C1 (as the code has it). For \<open>1 \<le> num_videos \<le> 2 ^ 52\<close> and a canvas with
  \<open>0 < width \<le> 2 ^ 52\<close> and \<open>0 < height\<close>, \<open>calculate_optimal_grid\<close> returns a layout
  \<open>(rows, cols, width div cols, height div rows)\<close> with \<open>rows\<close> between 1 and 19,
  \<open>cols\<close> the ceiling of \<open>num_videos / rows\<close>, \<open>cols \<ge> 1\<close> and \<open>rows * cols \<ge> num_videos\<close>.
  The row count minimises, over the row counts 1 to 19, the difference as the code
  computes it in floats (\<open>computed_diff\<close>): no row count has a smaller computed
  difference, and every smaller row count has a strictly larger one.
\<close>

theorem computeLayout_argmin:
  assumes n: "1 \<le> n" "n \<le> 2 ^ 52" and w: "0 < w" "w \<le> 2 ^ 52" and h: "0 < h"
  shows "\<exists>r c. calculate_optimal_grid n w h = Inr (Some (r, c, w div c, h div r))
           \<and> 1 \<le> r \<and> r \<le> 19
           \<and> c = \<lceil>(of_int n :: real) / of_int r\<rceil>
           \<and> 1 \<le> c \<and> n \<le> r * c
           \<and> (\<forall>r'\<in>{1..19}. \<not> float_less (computed_diff n w h r') (computed_diff n w h r)
                  \<and> (r' < r \<longrightarrow> float_less (computed_diff n w h r) (computed_diff n w h r')))"
proof -
  define d where "d = computed_diff n w h"
  define lay where "lay = (\<lambda>r. (r, \<lceil>(of_int n :: real) / of_int r\<rceil>,
                               w div \<lceil>(of_int n :: real) / of_int r\<rceil>, h div r))"
  have t: "py_truediv w h = Inr (fl_div w h)" using w h by (intro py_truediv_ok) auto
  have rows: "\<And>r best. r \<in> set [1..19] \<Longrightarrow>
      grid_row n w h (fl_div w h) best r
        = Inr (if float_less (d r) (fst best) then (d r, Some (lay r)) else best)"
    using grid_row_good [OF n] by (simp add: d_def lay_def)
  from grid_loop_argmin [of "[1..19]" n w h "fl_div w h" d lay "(Inf, None)", OF rows]
  obtain best' where
    res: "grid_loop n w h (fl_div w h) (Inf, None) [1..19] = Inr best'"
    and low: "\<forall>r\<in>set [1..19]. \<not> float_less (d r) (fst best')"
    and alt: "best' = (Inf, None) \<or> (\<exists>ys r zs. [1..19] = ys @ r # zs \<and> best' = (d r, Some (lay r))
                \<and> float_less (d r) (fst (Inf, None :: layout option)) \<and> (\<forall>y\<in>set ys. float_less (d r) (d y)))"
    by blast
  have c1: "1 \<le> \<lceil>(of_int n :: real) / of_int 1\<rceil>" "\<lceil>(of_int n :: real) / of_int 1\<rceil> \<le> n"
    using ceiling_quot [of n 1] n by auto
  have "\<bar>fl_div \<lceil>fl_div n 1\<rceil> 1\<bar> \<le> 2 ^ 53"
  proof -
    have "\<lceil>fl_div n 1\<rceil> = \<lceil>(of_int n :: real) / of_int 1\<rceil>"
      unfolding fl_div_def using n by (intro rnd64_ceiling) auto
    then show ?thesis using c1 n by (intro fl_div_bound) auto
  qed
  moreover have "\<bar>fl_div w h\<bar> \<le> 2 ^ 53" using w h by (intro fl_div_bound) auto
  ultimately have fin: "float_less (d 1) Inf"
    unfolding d_def computed_diff_def by (rule float_abs_sub_finite)
  have "best' \<noteq> (Inf, None)"
  proof
    assume "best' = (Inf, None)"
    with low have "\<not> float_less (d 1) Inf" by simp
    with fin show False by simp
  qed
  with alt obtain ys r zs where dec: "[1..19] = ys @ r # zs" and b': "best' = (d r, Some (lay r))"
    and before: "\<forall>y\<in>set ys. float_less (d r) (d y)"
    by blast
  have rin: "r \<in> set [1..19]" using dec by (metis in_set_conv_decomp)
  then have r: "1 \<le> r" "r \<le> 19" by auto
  have "calculate_optimal_grid n w h = Inr (Some (lay r))"
    by (simp add: calculate_optimal_grid_def t res b')
  moreover have "\<forall>r'\<in>{1..19}. \<not> float_less (d r') (d r) \<and> (r' < r \<longrightarrow> float_less (d r) (d r'))"
  proof
    fix r' :: int assume r': "r' \<in> {1..19}"
    then have in': "r' \<in> set [1..19]" by simp
    have "\<not> float_less (d r') (d r)" using low in' b' by simp
    moreover have "r' < r \<longrightarrow> float_less (d r) (d r')"
      using upto_split_before [OF dec in'] before by blast
    ultimately show "\<not> float_less (d r') (d r) \<and> (r' < r \<longrightarrow> float_less (d r) (d r'))" by simp
  qed
  moreover have "1 \<le> \<lceil>(of_int n :: real) / of_int r\<rceil>" "n \<le> r * \<lceil>(of_int n :: real) / of_int r\<rceil>"
    using ceiling_quot [of n r] n r by auto
  ultimately show ?thesis using r unfolding d_def lay_def by blast
qed

text \<open>C1, witness: 80 clips on the 1920 by 1080 canvas satisfy the hypotheses.\<close>

theorem computeLayout_argmin_witness:
  "(1::int) \<le> 80 \<and> (80::int) \<le> 2 ^ 52 \<and> (0::int) < 1920 \<and> (1920::int) \<le> 2 ^ 52 \<and> (0::int) < 1080
   \<and> (\<exists>r c. calculate_optimal_grid 80 1920 1080 = Inr (Some (r, c, 1920 div c, 1080 div r))
           \<and> 1 \<le> r \<and> r \<le> 19
           \<and> c = \<lceil>(of_int 80 :: real) / of_int r\<rceil>
           \<and> 1 \<le> c \<and> 80 \<le> r * c
           \<and> (\<forall>r'\<in>{1..19}. \<not> float_less (computed_diff 80 1920 1080 r') (computed_diff 80 1920 1080 r)
                  \<and> (r' < r \<longrightarrow> float_less (computed_diff 80 1920 1080 r) (computed_diff 80 1920 1080 r'))))"
  using computeLayout_argmin [of 80 1920 1080] by simp


text \<open>
  C1, counterexample to the tie rule on exact ratios. For 121 clips on the 1920 by 1080
  canvas, 8 rows of 16 and 9 rows of 14 are at the same exact distance \<open>2 / 9\<close> from
  \<open>16 / 9\<close>, and the code returns 9 rows: the float differences are
  \<open>0.2222222222222223\<close> for 8 rows and \<open>0.2222222222222221\<close> for 9 rows.
\<close>

theorem computeLayout_tie_counterexample:
  "calculate_optimal_grid 121 1920 1080 = Inr (Some (9, 14, 137, 120))
   \<and> \<lceil>(121::real) / 8\<rceil> = 16 \<and> \<lceil>(121::real) / 9\<rceil> = 14
   \<and> \<bar>(16::real) / 8 - 1920 / 1080\<bar> = \<bar>14 / 9 - 1920 / 1080\<bar>"
  by (simp add: calculate_optimal_grid_def grid_row_def float_eval upto.simps)

section \<open>Invalid inputs: theorems\<close>








section \<open>Selection: theorems\<close>

text \<open>
  \<open>random.choices\<close> and the filling step in closed form, the shuffle as a permutation that
  reads one raw output for each position but the first, and the cut to \<open>max_videos\<close> as
  a prefix.
\<close>

lemma choices_eq:
  "choices g population k =
     (if k = 0 then Inr ([], g)
      else if population = [] then Inl IndexError
      else Inr (map (\<lambda>i. population ! (g i mod length population)) [0..<k], \<lambda>i. g (i + k)))"
proof (induction k arbitrary: g)
  case 0
  show ?case by simp
next
  case (Suc k)
  show ?case
  proof (cases "population = []")
    case True
    then show ?thesis by simp
  next
    case False
    have "[0..<Suc k] = 0 # map Suc [0..<k]"
      by (simp add: upt_conv_Cons map_Suc_upt del: upt_Suc)
    then have "map (\<lambda>i. population ! (g i mod length population)) [0..<Suc k]
        = population ! (g 0 mod length population)
          # map (\<lambda>i. population ! (g (Suc i) mod length population)) [0..<k]"
      by (simp only: list.map map_map o_def)
    then show ?thesis
      using False by (cases "k = 0") (simp_all add: Suc.IH randbelow_def del: upt_Suc)
  qed
qed

lemma fill_videos_eq:
  "fill_videos g xs slots =
     (if nat (slots - int (length xs)) = 0 then Inr (xs, g)
      else if xs = [] then Inl IndexError
      else Inr (xs @ map (\<lambda>i. xs ! (g i mod length xs)) [0..<nat (slots - int (length xs))],
                \<lambda>i. g (i + nat (slots - int (length xs)))))"
  by (auto simp: fill_videos_def choices_eq)

lemma shuffle_loop_mset:
  "\<forall>i\<in>set idxs. i < length x \<Longrightarrow> mset (fst (shuffle_loop g x idxs)) = mset x"
proof (induction idxs arbitrary: g x)
  case Nil
  show ?case by simp
next
  case (Cons i idxs)
  define j where "j = g 0 mod (i + 1)"
  have i: "i < length x" using Cons.prems by simp
  have j: "j < length x" using i by (simp add: j_def) (meson less_Suc_eq_le mod_less_divisor order_le_less_trans zero_less_Suc)
  have "mset (fst (shuffle_loop (\<lambda>k. g (Suc k)) (x[i := x ! j, j := x ! i]) idxs))
        = mset (x[i := x ! j, j := x ! i])"
    using Cons.prems by (intro Cons.IH) simp
  also have "\<dots> = mset x" by (rule mset_swap [OF j i])
  finally show ?case by (simp add: randbelow_def j_def)
qed

lemma shuffle_loop_rng: "snd (shuffle_loop g x idxs) = (\<lambda>i. g (i + length idxs))"
  by (induction idxs arbitrary: g x) (simp_all add: randbelow_def)


lemma shuffle_mset: "mset (fst (shuffle g x)) = mset x"
  unfolding shuffle_def by (rule shuffle_loop_mset) simp

lemma shuffle_length: "length (fst (shuffle g x)) = length x"
  using shuffle_mset [of g x] by (metis size_mset)



lemma limit_videos_spec:
  assumes "max_videos = None \<or> (\<exists>m. max_videos = Some m \<and> 0 < m)"
  shows "limit_videos max_videos xs =
           (case max_videos of
              None \<Rightarrow> xs
            | Some m \<Rightarrow> if m < int (length xs) then take (nat m) xs else xs)"
  using assms by (auto simp: limit_videos_def py_prefix_def)

lemma limit_videos_nonempty:
  assumes "max_videos = None \<or> (\<exists>m. max_videos = Some m \<and> 0 < m)" "xs \<noteq> []"
  shows "limit_videos max_videos xs \<noteq> []"
  using assms by (auto simp: limit_videos_spec take_eq_Nil split: if_splits)

lemma create_balanced_video_list_eq:
  assumes "nat (rows * cols - int (length (limit_videos max_videos (flatten_videos task_videos)))) = 0
           \<or> limit_videos max_videos (flatten_videos task_videos) \<noteq> []"
  shows "create_balanced_video_list g task_videos (rows, cols) max_videos shuffle_flag =
     (let capped = limit_videos max_videos (flatten_videos task_videos);
          needed = nat (rows * cols - int (length capped));
          extended = capped @ map (\<lambda>i. capped ! (g i mod length capped)) [0..<needed];
          g' = (\<lambda>i. g (i + needed))
      in Inr (map fst (py_prefix (if shuffle_flag then fst (shuffle g' extended) else extended)
                          (rows * cols)),
              if shuffle_flag then snd (shuffle g' extended) else g'))"
  using assms
  by (auto simp: create_balanced_video_list_def fill_videos_eq Let_def case_prod_beta)











section \<open>Filter graph: theorems\<close>

text \<open>
  The loops in closed form: for at least one row and one column, \<open>filter_complex\<close> is the
  crops, then what each row adds, then the \<open>vstack\<close> if there is more than one row.
\<close>

lemma grid_cells_eq:
  "grid_cells n cw ch dur row cols (fc, rv) cs =
     (fc @ map (ColorFill cw ch dur) (filter (\<lambda>i. \<not> i < n) (map (\<lambda>col. row * cols + col) cs)),
      rv @ map (\<lambda>col. cell_label n (row * cols + col)) cs)"
  by (induction cs arbitrary: fc rv) (simp_all add: cell_label_def Let_def)

lemma grid_cells_row:
  "grid_cells n cw ch dur row cols (fc, []) [0..<cols] =
     (fc @ row_blacks n cw ch dur cols row, row_labels n cols row)"
  by (simp add: grid_cells_eq row_blacks_def row_labels_def)

lemma length_row_labels: "length (row_labels n cols row) = cols"
  by (simp add: row_labels_def)

lemma row_labels_one: "row_labels n (Suc 0) row = [cell_label n row]"
  by (simp add: row_labels_def)

lemma grid_rows_eq:
  assumes "1 \<le> cols"
  shows "grid_rows n cw ch dur cols (fc, ri) rs =
           Inr (fc @ concat (map (row_filters n cw ch dur (nat cols)) rs),
                ri @ map (row_node n (nat cols)) rs)"
proof (induction rs arbitrary: fc ri)
  case Nil
  show ?case by simp
next
  case (Cons row rs)
  show ?case
  proof (cases "1 < nat cols")
    case True
    then show ?thesis
      by (simp add: grid_cells_row length_row_labels Cons.IH row_filters_def row_node_def)
  next
    case False
    with assms have c: "nat cols = Suc 0" by simp
    show ?thesis
      using grid_cells_row [of n cw ch dur row "Suc 0" fc]
      by (simp add: c row_labels_one Cons.IH row_filters_def row_node_def del: grid_cells.simps)
  qed
qed

lemma grid_rows_no_cols:
  assumes "cols \<le> 0"
  shows "grid_rows n cw ch dur cols (fc, ri) (row # rs) = Inl IndexError"
  using assms by simp

lemma build_filter_complex_eq:
  assumes "1 \<le> rows" "1 \<le> cols"
  shows "build_filter_complex vps cw ch dur rows cols =
           Inr (crop_scale_filters vps cw ch
                  @ concat (map (row_filters (length vps) cw ch dur (nat cols)) [0..<nat rows])
                  @ (if 1 < nat rows then [VStack (map (row_node (length vps) (nat cols)) [0..<nat rows])] else []),
                if 1 < nat rows then Final else row_node (length vps) (nat cols) 0)"
proof (cases "1 < nat rows")
  case True
  then show ?thesis
    unfolding build_filter_complex_def grid_rows_eq [OF assms(2)] by simp
next
  case False
  with assms have r: "nat rows = Suc 0" by simp
  show ?thesis
    unfolding build_filter_complex_def grid_rows_eq [OF assms(2)] r by simp
qed

lemma build_filter_complex_bad:
  assumes "rows \<le> 0 \<or> cols \<le> 0"
  shows "build_filter_complex vps cw ch dur rows cols = Inl IndexError"
proof (cases "rows \<le> 0")
  case True
  then show ?thesis by (simp add: build_filter_complex_def)
next
  case False
  then have "[0..<nat rows] = 0 # [Suc 0..<nat rows]" by (simp add: upt_conv_Cons)
  moreover have "cols \<le> 0" using assms False by simp
  ultimately show ?thesis by (simp add: build_filter_complex_def)
qed

lemma refs_ok_append:
  "refs_ok S (xs @ ys) \<longleftrightarrow> refs_ok S xs \<and> refs_ok (S \<union> filter_output ` set xs) ys"
  by (induction xs arbitrary: S) simp_all

lemma refs_ok_no_inputs: "\<forall>f\<in>set xs. filter_inputs f = [] \<Longrightarrow> refs_ok S xs"
  by (induction xs arbitrary: S) simp_all

lemma crop_scale_inputs: "\<forall>f\<in>set (crop_scale_filters vps cw ch). filter_inputs f = []"
  by (auto simp: crop_scale_filters_def)

lemma crop_scale_outputs: "filter_output ` set (crop_scale_filters vps cw ch) = V ` {0..<length vps}"
proof -
  have "map filter_output (crop_scale_filters vps cw ch) = map (\<lambda>x. V (fst x)) (enumerate 0 vps)"
    by (simp add: crop_scale_filters_def case_prod_beta comp_def)
  also have "\<dots> = map V (map fst (enumerate 0 vps))" by (simp only: map_map comp_def)
  also have "\<dots> = map V [0..<length vps]" by (simp only: map_fst_enumerate add_0)
  finally have "map filter_output (crop_scale_filters vps cw ch) = map V [0..<length vps]" .
  then have "set (map filter_output (crop_scale_filters vps cw ch)) = set (map V [0..<length vps])"
    by simp
  then show ?thesis by simp
qed

lemma length_crop_scale: "length (crop_scale_filters vps cw ch) = length vps"
  by (simp add: crop_scale_filters_def)

lemma crop_scale_kind: "\<forall>f\<in>set (crop_scale_filters vps cw ch). filter_kind f = CropScaleKind"
  by (auto simp: crop_scale_filters_def)

lemma row_blacks_inputs: "\<forall>f\<in>set (row_blacks n cw ch dur cols row). filter_inputs f = []"
  by (auto simp: row_blacks_def)

lemma row_labels_seen:
  assumes "V ` {0..<n} \<subseteq> S"
  shows "set (row_labels n cols row) \<subseteq> S \<union> filter_output ` set (row_blacks n cw ch dur cols row)"
proof
  fix l assume "l \<in> set (row_labels n cols row)"
  then obtain col where col: "col < cols" "l = cell_label n (row * cols + col)"
    by (auto simp: row_labels_def)
  show "l \<in> S \<union> filter_output ` set (row_blacks n cw ch dur cols row)"
  proof (cases "row * cols + col < n")
    case True
    then have "l \<in> V ` {0..<n}" using col by (simp add: cell_label_def)
    with assms show ?thesis by blast
  next
    case False
    then have "ColorFill cw ch dur (row * cols + col) \<in> set (row_blacks n cw ch dur cols row)"
      using col by (auto simp: row_blacks_def)
    then have "filter_output (ColorFill cw ch dur (row * cols + col))
        \<in> filter_output ` set (row_blacks n cw ch dur cols row)"
      by (rule imageI)
    then show ?thesis using False col by (simp add: cell_label_def)
  qed
qed

lemma refs_ok_row:
  assumes "V ` {0..<n} \<subseteq> S"
  shows "refs_ok S (row_filters n cw ch dur cols row)"
  using row_labels_seen [OF assms, of cols row cw ch dur]
  by (simp add: row_filters_def refs_ok_append refs_ok_no_inputs row_blacks_inputs)

lemma refs_ok_rows:
  assumes "V ` {0..<n} \<subseteq> S"
  shows "refs_ok S (concat (map (row_filters n cw ch dur cols) rs))"
  using assms
proof (induction rs arbitrary: S)
  case Nil
  show ?case by simp
next
  case (Cons row rs)
  have "V ` {0..<n} \<subseteq> S \<union> filter_output ` set (row_filters n cw ch dur cols row)"
    using Cons.prems by blast
  then have "refs_ok (S \<union> filter_output ` set (row_filters n cw ch dur cols row))
               (concat (map (row_filters n cw ch dur cols) rs))"
    by (rule Cons.IH)
  then show ?case using refs_ok_row [OF Cons.prems] by (simp add: refs_ok_append)
qed

lemma row_node_seen:
  assumes "V ` {0..<n} \<subseteq> S" "1 \<le> cols" "row \<in> set rs"
  shows "row_node n cols row \<in> S \<union> filter_output ` set (concat (map (row_filters n cw ch dur cols) rs))"
proof (cases "1 < cols")
  case True
  then have "HStack (row_labels n cols row) row \<in> set (row_filters n cw ch dur cols row)"
    by (simp add: row_filters_def)
  then have "HStack (row_labels n cols row) row
      \<in> set (concat (map (row_filters n cw ch dur cols) rs))"
    using assms(3) by auto
  then have "filter_output (HStack (row_labels n cols row) row)
      \<in> filter_output ` set (concat (map (row_filters n cw ch dur cols) rs))"
    by (rule imageI)
  then show ?thesis using True by (simp add: row_node_def)
next
  case False
  with assms(2) have c: "cols = Suc 0" by simp
  have "cell_label n row \<in> set (row_labels n cols row)" by (simp add: c row_labels_one)
  then have "cell_label n row \<in> S \<union> filter_output ` set (row_blacks n cw ch dur cols row)"
    using row_labels_seen [OF assms(1), of cols row cw ch dur] by blast
  moreover have "set (row_blacks n cw ch dur cols row)
      \<subseteq> set (concat (map (row_filters n cw ch dur cols) rs))"
    using assms(3) by (auto simp: row_filters_def)
  ultimately show ?thesis using c by (auto simp: row_node_def)
qed

lemma count_kind_append [simp]: "count_kind k (xs @ ys) = count_kind k xs + count_kind k ys"
  by (simp add: count_kind_def)

lemma count_kind_none: "\<forall>f\<in>set xs. filter_kind f \<noteq> k \<Longrightarrow> count_kind k xs = 0"
  by (simp add: count_kind_def)

lemma row_blacks_kind: "\<forall>f\<in>set (row_blacks n cw ch dur cols row). filter_kind f = ColorFillKind"
  by (auto simp: row_blacks_def)

lemma no_forward_refs_build:
  assumes "1 \<le> cols"
  shows "no_forward_refs
           (crop_scale_filters vps cw ch
            @ concat (map (row_filters (length vps) cw ch dur (nat cols)) rs)
            @ (if b then [VStack (map (row_node (length vps) (nat cols)) rs)] else []))"
proof -
  define S where "S = filter_output ` set (crop_scale_filters vps cw ch)"
  have S: "V ` {0..<length vps} \<subseteq> S" by (simp add: S_def crop_scale_outputs)
  have c: "1 \<le> nat cols" using assms by simp
  have 1: "refs_ok {} (crop_scale_filters vps cw ch)"
    by (rule refs_ok_no_inputs) (rule crop_scale_inputs)
  have 2: "refs_ok S (concat (map (row_filters (length vps) cw ch dur (nat cols)) rs))"
    using S by (rule refs_ok_rows)
  have 3: "set (map (row_node (length vps) (nat cols)) rs)
      \<subseteq> S \<union> filter_output ` set (concat (map (row_filters (length vps) cw ch dur (nat cols)) rs))"
  proof
    fix l assume "l \<in> set (map (row_node (length vps) (nat cols)) rs)"
    then obtain row where "row \<in> set rs" "l = row_node (length vps) (nat cols) row" by auto
    then show "l \<in> S \<union> filter_output ` set (concat (map (row_filters (length vps) cw ch dur (nat cols)) rs))"
      using row_node_seen [OF S c, of row rs cw ch dur] by simp
  qed
  show ?thesis
    unfolding no_forward_refs_def refs_ok_append
    using 1 2 3 by (simp add: S_def)
qed

lemma row_end:
  fixes row R C :: nat
  assumes "row < R"
  shows "row * C + C \<le> R * C"
proof -
  have "Suc row * C \<le> R * C" using assms by (intro mult_le_mono1) simp
  then show ?thesis by simp
qed

lemma row_blacks_full:
  assumes "row < R"
  shows "row_blacks (R * C) cw ch dur C row = []"
proof -
  have "filter (\<lambda>i. \<not> i < R * C) (map (\<lambda>col. row * C + col) [0..<C]) = []"
    unfolding filter_empty_conv using row_end [OF assms, of C] by auto
  then show ?thesis by (simp only: row_blacks_def list.map)
qed

lemma rows_full:
  "concat (map (row_filters (R * C) cw ch dur C) [0..<R])
     = (if 1 < C then map (\<lambda>row. HStack (row_labels (R * C) C row) row) [0..<R] else [])"
proof (cases "1 < C")
  case True
  have "map (row_filters (R * C) cw ch dur C) [0..<R]
      = map (\<lambda>row. [HStack (row_labels (R * C) C row) row]) [0..<R]"
  proof (rule map_cong)
    fix x assume "x \<in> set [0..<R]"
    then have "x < R" by simp
    then show "row_filters (R * C) cw ch dur C x = [HStack (row_labels (R * C) C x) x]"
      using True by (simp add: row_filters_def row_blacks_full)
  qed simp
  then have "concat (map (row_filters (R * C) cw ch dur C) [0..<R])
      = concat (map (\<lambda>row. [HStack (row_labels (R * C) C row) row]) [0..<R])"
    by (rule arg_cong)
  then show ?thesis using True by (simp only: concat_map_singleton if_True)
next
  case False
  have "map (row_filters (R * C) cw ch dur C) [0..<R] = map (\<lambda>row. []) [0..<R]"
  proof (rule map_cong)
    fix x assume "x \<in> set [0..<R]"
    then have "x < R" by simp
    then show "row_filters (R * C) cw ch dur C x = []"
      using False by (simp add: row_filters_def row_blacks_full)
  qed simp
  then have "concat (map (row_filters (R * C) cw ch dur C) [0..<R])
      = concat (map (\<lambda>row. []) [0..<R])"
    by (rule arg_cong)
  then show ?thesis using False by simp
qed

text \<open>
  C5. For a layout with \<open>rows \<ge> 1\<close> and \<open>cols \<ge> 1\<close> and a selection that fills it, the
  graph is built without exception; \<open>filter_complex\<close> is \<open>rows * cols\<close> crop-and-scale
  filters, then \<open>rows\<close> \<open>hstack\<close> filters if \<open>cols > 1\<close> (none otherwise), then one \<open>vstack\<close>
  if \<open>rows > 1\<close> (none otherwise); every label a filter consumes is the output of a
  filter earlier in the list, and \<open>output_map\<close> is the output of a filter of the list.
\<close>

theorem compile_dag:
  assumes "1 \<le> rows" and "1 \<le> cols" and "length vps = nat (rows * cols)"
  shows "\<exists>cells row_nodes final out.
     build_filter_complex vps cw ch dur rows cols = Inr (cells @ row_nodes @ final, out)
     \<and> (\<forall>f\<in>set cells. filter_kind f = CropScaleKind) \<and> length cells = nat (rows * cols)
     \<and> (\<forall>f\<in>set row_nodes. filter_kind f = HStackKind)
     \<and> length row_nodes = (if 1 < cols then nat rows else 0)
     \<and> (\<forall>f\<in>set final. filter_kind f = VStackKind)
     \<and> length final = (if 1 < rows then 1 else 0)
     \<and> no_forward_refs (cells @ row_nodes @ final)
     \<and> out \<in> filter_output ` set (cells @ row_nodes @ final)
     \<and> length (cells @ row_nodes @ final)
         = nat (rows * cols) + (if 1 < cols then nat rows else 0) + (if 1 < rows then 1 else 0)"
proof -
  define R where "R = nat rows"
  define C where "C = nat cols"
  define n where "n = length vps"
  define cells where "cells = crop_scale_filters vps cw ch"
  define row_nodes where "row_nodes = concat (map (row_filters n cw ch dur C) [0..<R])"
  define final where "final = (if 1 < R then [VStack (map (row_node n C) [0..<R])] else [])"
  define out where "out = (if 1 < R then Final else row_node n C 0)"
  have RC: "1 \<le> R" "1 \<le> C" using assms by (simp_all add: R_def C_def)
  have n: "n = R * C" using assms by (simp add: n_def R_def C_def nat_mult_distrib)
  have nn: "nat (rows * cols) = R * C" using assms by (simp add: R_def C_def nat_mult_distrib)
  have b: "build_filter_complex vps cw ch dur rows cols = Inr (cells @ row_nodes @ final, out)"
    unfolding build_filter_complex_eq [OF assms(1,2)]
    by (simp add: cells_def row_nodes_def final_def out_def R_def C_def n_def)
  have rn: "row_nodes = (if 1 < C then map (\<lambda>row. HStack (row_labels (R * C) C row) row) [0..<R] else [])"
    unfolding row_nodes_def n by (rule rows_full)
  have k1: "\<forall>f\<in>set cells. filter_kind f = CropScaleKind"
    unfolding cells_def by (rule crop_scale_kind)
  have l1: "length cells = nat (rows * cols)"
    using assms(3) by (simp add: cells_def length_crop_scale)
  have k2: "\<forall>f\<in>set row_nodes. filter_kind f = HStackKind" by (auto simp: rn)
  have l2: "length row_nodes = (if 1 < cols then nat rows else 0)"
    using assms by (auto simp: rn R_def C_def)
  have k3: "\<forall>f\<in>set final. filter_kind f = VStackKind" by (simp add: final_def)
  have l3: "length final = (if 1 < rows then 1 else 0)"
    using assms by (auto simp: final_def R_def)
  have nf: "no_forward_refs (cells @ row_nodes @ final)"
    unfolding cells_def row_nodes_def final_def n_def C_def
    by (rule no_forward_refs_build [OF assms(2)])
  have o: "out \<in> filter_output ` set (cells @ row_nodes @ final)"
  proof (cases "1 < R")
    case True
    then show ?thesis by (simp add: out_def final_def)
  next
    case False
    have "0 \<in> set [0..<R]" using RC by simp
    then have "row_node n C 0 \<in> filter_output ` set cells \<union> filter_output ` set row_nodes"
      unfolding row_nodes_def cells_def n_def
      using row_node_seen [OF _ RC(2), of "length vps" "filter_output ` set (crop_scale_filters vps cw ch)" 0 "[0..<R]" cw ch dur]
      by (simp add: crop_scale_outputs)
    then show ?thesis using False by (auto simp: out_def)
  qed
  have lt: "length (cells @ row_nodes @ final)
         = nat (rows * cols) + (if 1 < cols then nat rows else 0) + (if 1 < rows then 1 else 0)"
    by (simp only: length_append l1 l2 l3 add.assoc)
  show ?thesis
    by (intro exI conjI)
       (rule b, rule k1, rule l1, rule k2, rule l2, rule k3, rule l3, rule nf, rule o, rule lt)
qed

text \<open>C5, witness: six clips on a 2 by 3 grid.\<close>

theorem compile_dag_witness:
  "(1::int) \<le> 2 \<and> (1::int) \<le> 3
   \<and> length (replicate 6 (get_video_crop_params \<lparr>width = 1920, height = 1080, r_frame_rate = ()\<rparr> ''center'')) = nat (2 * 3)
   \<and> (\<exists>cells row_nodes final out.
     build_filter_complex
        (replicate 6 (get_video_crop_params \<lparr>width = 1920, height = 1080, r_frame_rate = ()\<rparr> ''center''))
        640 540 30 2 3 = Inr (cells @ row_nodes @ final, out)
     \<and> (\<forall>f\<in>set cells. filter_kind f = CropScaleKind) \<and> length cells = nat (2 * 3)
     \<and> (\<forall>f\<in>set row_nodes. filter_kind f = HStackKind)
     \<and> length row_nodes = (if (1::int) < 3 then nat 2 else 0)
     \<and> (\<forall>f\<in>set final. filter_kind f = VStackKind)
     \<and> length final = (if (1::int) < 2 then 1 else 0)
     \<and> no_forward_refs (cells @ row_nodes @ final)
     \<and> out \<in> filter_output ` set (cells @ row_nodes @ final)
     \<and> length (cells @ row_nodes @ final)
         = nat (2 * 3) + (if (1::int) < 3 then nat 2 else 0) + (if (1::int) < 2 then 1 else 0))"
proof -
  have h1: "(1::int) \<le> 2" and h2: "(1::int) \<le> 3" by simp_all
  have h3: "length (replicate 6 (get_video_crop_params \<lparr>width = 1920, height = 1080, r_frame_rate = ()\<rparr> ''center'')) = nat (2 * 3)"
    by simp
  show ?thesis
    by (intro conjI) (rule h1, rule h2, rule h3, rule compile_dag [OF h1 h2 h3])
qed

lemma row_filters_one_hstack: "count_kind HStackKind (row_filters n cw ch dur (Suc 0) row) = 0"
  by (rule count_kind_none) (auto simp: row_filters_def row_blacks_def)

lemma count_kind_Nil [simp]: "count_kind k [] = 0"
  by (simp add: count_kind_def)

lemma rows_one_hstack:
  "count_kind HStackKind (concat (map (row_filters n cw ch dur (Suc 0)) rs)) = 0"
  by (induction rs) (simp_all add: row_filters_one_hstack)

lemma row_filters_vstack: "count_kind VStackKind (row_filters n cw ch dur cols row) = 0"
  by (rule count_kind_none) (auto simp: row_filters_def row_blacks_def)

lemma crop_scale_vstack: "count_kind VStackKind (crop_scale_filters vps cw ch) = 0"
  by (rule count_kind_none) (auto simp: crop_scale_filters_def)

text \<open>
  C9. A 1 by 1 layout with one clip gives the single crop-and-scale filter, and its
  label \<open>[v0]\<close> is \<open>output_map\<close>. With one column, the label of each row in \<open>rows_inputs\<close>
  is the label of its cell and the loop adds no \<open>hstack\<close>. With one row, \<open>output_map\<close> is
  the only label of \<open>rows_inputs\<close> and \<open>filter_complex\<close> has no \<open>vstack\<close>.
\<close>

theorem compile_degenerate:
  "build_filter_complex [p] cw ch dur 1 1
     = Inr ([CropScale 0 (square_size p) (crop_x p) (crop_y p) cw ch], V 0)
   \<and> (1 \<le> rows \<and> cols = 1 \<longrightarrow>
        (\<exists>fc. grid_rows n cw ch dur cols (fc0, []) [0..<nat rows]
                = Inr (fc, map (cell_label n) [0..<nat rows])
              \<and> count_kind HStackKind fc = count_kind HStackKind fc0))
   \<and> (rows = 1 \<and> 1 \<le> cols \<longrightarrow>
        (\<exists>fc l. grid_rows (length vps) cw ch dur cols (crop_scale_filters vps cw ch, []) [0..<nat rows]
                  = Inr (fc, [l])
              \<and> build_filter_complex vps cw ch dur rows cols = Inr (fc, l)
              \<and> count_kind VStackKind fc = 0))"
proof (intro conjI impI)
  show "build_filter_complex [p] cw ch dur 1 1
     = Inr ([CropScale 0 (square_size p) (crop_x p) (crop_y p) cw ch], V 0)"
    by (simp add: build_filter_complex_def crop_scale_filters_def)
next
  assume a: "1 \<le> rows \<and> cols = 1"
  then have c: "(1::int) \<le> cols" and n1: "nat cols = Suc 0" by simp_all
  have "grid_rows n cw ch dur cols (fc0, []) [0..<nat rows]
      = Inr (fc0 @ concat (map (row_filters n cw ch dur (Suc 0)) [0..<nat rows]),
             map (cell_label n) [0..<nat rows])"
    unfolding grid_rows_eq [OF c] n1 by (simp add: row_node_def)
  moreover have "count_kind HStackKind (fc0 @ concat (map (row_filters n cw ch dur (Suc 0)) [0..<nat rows]))
      = count_kind HStackKind fc0"
    by (simp add: rows_one_hstack)
  ultimately show "\<exists>fc. grid_rows n cw ch dur cols (fc0, []) [0..<nat rows]
                = Inr (fc, map (cell_label n) [0..<nat rows])
              \<and> count_kind HStackKind fc = count_kind HStackKind fc0"
    by (intro exI conjI)
next
  assume a: "rows = 1 \<and> 1 \<le> cols"
  then have c: "1 \<le> cols" and r: "(1::int) \<le> rows" and r1: "nat rows = Suc 0" by simp_all
  define fc where "fc = crop_scale_filters vps cw ch @ row_filters (length vps) cw ch dur (nat cols) 0"
  have 1: "grid_rows (length vps) cw ch dur cols (crop_scale_filters vps cw ch, []) [0..<nat rows]
       = Inr (fc, [row_node (length vps) (nat cols) 0])"
    unfolding grid_rows_eq [OF c] r1 by (simp add: fc_def)
  have 2: "build_filter_complex vps cw ch dur rows cols = Inr (fc, row_node (length vps) (nat cols) 0)"
    unfolding build_filter_complex_eq [OF r c] r1 by (simp add: fc_def)
  have 3: "count_kind VStackKind fc = 0"
    by (simp add: fc_def crop_scale_vstack row_filters_vstack)
  show "\<exists>fc l. grid_rows (length vps) cw ch dur cols (crop_scale_filters vps cw ch, []) [0..<nat rows]
                  = Inr (fc, [l])
              \<and> build_filter_complex vps cw ch dur rows cols = Inr (fc, l)
              \<and> count_kind VStackKind fc = 0"
    by (intro exI conjI) (rule 1, rule 2, rule 3)
qed

text \<open>C9, witness: a 1 by 1 layout with one 1920 by 1080 clip.\<close>

theorem compile_degenerate_witness:
  "build_filter_complex [(get_video_crop_params \<lparr>width = 1920, height = 1080, r_frame_rate = ()\<rparr> ''center'')] 1920 1080 30 1 1
     = Inr ([CropScale 0 (square_size (get_video_crop_params \<lparr>width = 1920, height = 1080, r_frame_rate = ()\<rparr> ''center'')) (crop_x (get_video_crop_params \<lparr>width = 1920, height = 1080, r_frame_rate = ()\<rparr> ''center'')) (crop_y (get_video_crop_params \<lparr>width = 1920, height = 1080, r_frame_rate = ()\<rparr> ''center'')) 1920 1080], V 0)
   \<and> ((1::int) \<le> 1 \<and> (1::int) = 1)
   \<and> (\<exists>fc. grid_rows 1 1920 1080 30 1 ([], []) [0..<nat 1] = Inr (fc, map (cell_label 1) [0..<nat 1])
          \<and> count_kind HStackKind fc = count_kind HStackKind [])
   \<and> (\<exists>fc l. grid_rows (length [(get_video_crop_params \<lparr>width = 1920, height = 1080, r_frame_rate = ()\<rparr> ''center'')]) 1920 1080 30 1 (crop_scale_filters [(get_video_crop_params \<lparr>width = 1920, height = 1080, r_frame_rate = ()\<rparr> ''center'')] 1920 1080, [])
                 [0..<nat 1] = Inr (fc, [l])
          \<and> build_filter_complex [(get_video_crop_params \<lparr>width = 1920, height = 1080, r_frame_rate = ()\<rparr> ''center'')] 1920 1080 30 1 1 = Inr (fc, l)
          \<and> count_kind VStackKind fc = 0)"
proof -
  note t = compile_degenerate [of "(get_video_crop_params \<lparr>width = 1920, height = 1080, r_frame_rate = ()\<rparr> ''center'')" 1920 1080 30 1 1 1 "[]" "[(get_video_crop_params \<lparr>width = 1920, height = 1080, r_frame_rate = ()\<rparr> ''center'')]"]
  have h: "(1::int) \<le> 1 \<and> (1::int) = 1" by simp
  have h': "(1::int) = 1 \<and> (1::int) \<le> 1" by simp
  show ?thesis
    by (intro conjI)
       (rule t [THEN conjunct1], rule h [THEN conjunct1], rule h [THEN conjunct2],
        rule t [THEN conjunct2, THEN conjunct1, THEN mp, OF h],
        rule t [THEN conjunct2, THEN conjunct2, THEN mp, OF h'])
qed

section \<open>Layout given by the caller: theorems\<close>

lemma flatten_videos_Nil: "flatten_videos [] = []"
  by (simp add: flatten_videos_def)

lemma create_balanced_video_list_ok:
  assumes "flatten_videos task_videos \<noteq> []"
    and "max_videos = None \<or> (\<exists>m. max_videos = Some m \<and> 0 < m)"
  shows "\<exists>sel g'. create_balanced_video_list g task_videos (rows, cols) max_videos shuffle_flag
            = Inr (sel, g')"
proof -
  have "limit_videos max_videos (flatten_videos task_videos) \<noteq> []"
    using assms(2,1) by (rule limit_videos_nonempty)
  then show ?thesis
    using create_balanced_video_list_eq [of rows cols max_videos task_videos g shuffle_flag]
    by (simp add: Let_def)
qed

text \<open>
  C8 (as the code has it). With a layout \<open>(rows, cols)\<close> given, at least one clip and
  \<open>max_videos\<close> unset or positive, planning succeeds if and only if \<open>rows > 0\<close> and
  \<open>cols > 0\<close>. It then uses the given layout with the cell sizes \<open>width div cols\<close> and
  \<open>height div rows\<close>, without a search and without a check of the cell sizes. With
  \<open>rows\<close> or \<open>cols\<close> equal to 0 it raises \<open>ZeroDivisionError\<close>, and with a negative one
  \<open>IndexError\<close>, when the graph is built.
\<close>

theorem layout_override_accepted:
  assumes clips: "flatten_videos task_videos \<noteq> []"
    and cap: "max_videos = None \<or> (\<exists>m. max_videos = Some m \<and> 0 < m)"
  shows "((\<exists>res. plan_video_grid g task_videos probe w h dur (Some (rows, cols)) max_videos
                   shuffle_flag crop_mode = Inr (Some res))
          \<longleftrightarrow> 0 < rows \<and> 0 < cols)
     \<and> (0 < rows \<and> 0 < cols \<longrightarrow>
          (\<exists>sel fc out. plan_video_grid g task_videos probe w h dur (Some (rows, cols)) max_videos
                           shuffle_flag crop_mode
                         = Inr (Some ((rows, cols, w div cols, h div rows), sel, fc, out))))
     \<and> (rows = 0 \<or> cols = 0 \<longrightarrow>
          plan_video_grid g task_videos probe w h dur (Some (rows, cols)) max_videos
            shuffle_flag crop_mode = Inl ZeroDivisionError)
     \<and> (rows \<noteq> 0 \<and> cols \<noteq> 0 \<and> (rows < 0 \<or> cols < 0) \<longrightarrow>
          plan_video_grid g task_videos probe w h dur (Some (rows, cols)) max_videos
            shuffle_flag crop_mode = Inl IndexError)"
proof -
  let ?plan = "plan_video_grid g task_videos probe w h dur (Some (rows, cols)) max_videos
                 shuffle_flag crop_mode"
  have tv: "task_videos \<noteq> []" using clips flatten_videos_Nil by auto
  obtain sel g' where sel:
    "create_balanced_video_list g task_videos (rows, cols) max_videos shuffle_flag = Inr (sel, g')"
    using create_balanced_video_list_ok [OF clips cap] by blast
  define vps where "vps = map (\<lambda>video_file. get_video_crop_params (probe video_file) crop_mode) sel"
  have zero: "rows = 0 \<or> cols = 0 \<Longrightarrow> ?plan = Inl ZeroDivisionError"
    using tv by (auto simp: plan_video_grid_def resolve_grid_layout_def Let_def)
  have step: "rows \<noteq> 0 \<Longrightarrow> cols \<noteq> 0 \<Longrightarrow>
      ?plan = (case build_filter_complex vps (w div cols) (h div rows) dur rows cols of
                 Inl e \<Rightarrow> Inl e
               | Inr (fc, out) \<Rightarrow> Inr (Some ((rows, cols, w div cols, h div rows), sel, fc, out)))"
    using tv by (simp add: plan_video_grid_def resolve_grid_layout_def Let_def sel vps_def)
  have neg: "rows \<noteq> 0 \<and> cols \<noteq> 0 \<and> (rows < 0 \<or> cols < 0) \<Longrightarrow> ?plan = Inl IndexError"
  proof -
    assume a: "rows \<noteq> 0 \<and> cols \<noteq> 0 \<and> (rows < 0 \<or> cols < 0)"
    then have "rows \<le> 0 \<or> cols \<le> 0" by auto
    then have "build_filter_complex vps (w div cols) (h div rows) dur rows cols = Inl IndexError"
      by (rule build_filter_complex_bad)
    then show ?thesis using step a by simp
  qed
  have pos: "0 < rows \<and> 0 < cols \<Longrightarrow>
      \<exists>sel fc out. ?plan = Inr (Some ((rows, cols, w div cols, h div rows), sel, fc, out))"
  proof -
    assume a: "0 < rows \<and> 0 < cols"
    then have "1 \<le> rows" "1 \<le> cols" by simp_all
    from build_filter_complex_eq [OF this, of vps "w div cols" "h div rows" dur]
    obtain fc out where "build_filter_complex vps (w div cols) (h div rows) dur rows cols = Inr (fc, out)"
      by blast
    then have "?plan = Inr (Some ((rows, cols, w div cols, h div rows), sel, fc, out))"
      using step a by simp
    then show ?thesis by (intro exI)
  qed
  have iff: "(\<exists>res. ?plan = Inr (Some res)) \<longleftrightarrow> 0 < rows \<and> 0 < cols"
  proof
    assume "\<exists>res. ?plan = Inr (Some res)"
    then obtain res where r: "?plan = Inr (Some res)" by (elim exE)
    show "0 < rows \<and> 0 < cols"
    proof (rule ccontr)
      assume "\<not> (0 < rows \<and> 0 < cols)"
      then have "rows = 0 \<or> cols = 0 \<or> (rows \<noteq> 0 \<and> cols \<noteq> 0 \<and> (rows < 0 \<or> cols < 0))"
        by auto
      then have "?plan = Inl ZeroDivisionError \<or> ?plan = Inl IndexError"
        using zero neg by blast
      with r show False by auto
    qed
  next
    assume "0 < rows \<and> 0 < cols"
    from pos [OF this] show "\<exists>res. ?plan = Inr (Some res)" by blast
  qed
  show ?thesis
    using iff pos zero neg by (intro conjI impI)
qed

text \<open>
  C8, witness: one clip on the 1920 by 1080 canvas with the layouts \<open>(1, 2)\<close>, \<open>(0, 2)\<close>
  and \<open>(-1, 2)\<close>.
\<close>

theorem layout_override_accepted_witness:
  "flatten_videos [(''a'', [''x''])] \<noteq> []
   \<and> ((None :: int option) = None \<or> (\<exists>m::int. None = Some m \<and> 0 < m))
   \<and> (\<exists>sel fc out. plan_video_grid (rng_const 0) [(''a'', [''x''])]
          (probe_const \<lparr>width = 640, height = 480, r_frame_rate = ()\<rparr>) 1920 1080 30 (Some (1, 2)) None
          False ''center''
        = Inr (Some ((1, 2, 1920 div 2, 1080 div 1), sel, fc, out)))
   \<and> plan_video_grid (rng_const 0) [(''a'', [''x''])]
          (probe_const \<lparr>width = 640, height = 480, r_frame_rate = ()\<rparr>) 1920 1080 30 (Some (0, 2)) None
          False ''center'' = Inl ZeroDivisionError
   \<and> plan_video_grid (rng_const 0) [(''a'', [''x''])]
          (probe_const \<lparr>width = 640, height = 480, r_frame_rate = ()\<rparr>) 1920 1080 30 (Some (- 1, 2)) None
          False ''center'' = Inl IndexError"
proof -
  have h1: "flatten_videos [(''a'', [''x''])] \<noteq> []" by (simp add: flatten_videos_def)
  have h2: "(None :: int option) = None \<or> (\<exists>m::int. None = Some m \<and> 0 < m)" by simp
  note t = layout_override_accepted [OF h1 h2, of "rng_const 0"
      "probe_const \<lparr>width = 640, height = 480, r_frame_rate = ()\<rparr>" 1920 1080 30 _ _ False "''center''"]
  have a: "(0::int) < 1 \<and> (0::int) < 2" by simp
  have b: "(0::int) = 0 \<or> (2::int) = 0" by simp
  have c: "(- 1::int) \<noteq> 0 \<and> (2::int) \<noteq> 0 \<and> ((- 1::int) < 0 \<or> (2::int) < 0)" by simp
  show ?thesis
    by (intro conjI)
       (rule h1, rule h2,
        rule t [of 1 2, THEN conjunct2, THEN conjunct1, THEN mp, OF a],
        rule t [of 0 2, THEN conjunct2, THEN conjunct2, THEN conjunct1, THEN mp, OF b],
        rule t [of "- 1" 2, THEN conjunct2, THEN conjunct2, THEN conjunct2, THEN mp, OF c])
qed

text \<open>
  C8, counterexample. On the 1920 by 1080 canvas the layout \<open>(1, 3000)\<close> is taken with
  cells of width 0; on a canvas of width 1 the layout \<open>(1, 2)\<close> is planned to the end
  with cells of width 0.
\<close>

theorem layout_override_counterexample:
  "resolve_grid_layout (Some (1, 3000)) 10 1920 1080 = Inr (1, 3000, 0, 1080)
   \<and> plan_video_grid (rng_const 0) [(''a'', [''x''])]
        (probe_const \<lparr>width = 640, height = 480, r_frame_rate = ()\<rparr>) 1 1080 30 (Some (1, 2)) None
        False ''center''
      = Inr (Some ((1, 2, 0, 1080), [''x'', ''x''],
                   [CropScale 0 480 80 0 0 1080, CropScale 1 480 80 0 0 1080, HStack [V 0, V 1] 0],
                   Row 0))"
  by (simp add: resolve_grid_layout_def plan_video_grid_def create_balanced_video_list_def
      fill_videos_def limit_videos_def flatten_videos_def py_prefix_def randbelow_def rng_const_def
      build_filter_complex_def crop_scale_filters_def get_video_crop_params_def probe_const_def
      Let_def numeral_2_eq_2 upt_rec [of 0])

end
